theory Spec2Isabelle
  imports Main
begin

section \<open>Continuous line puzzle: the grid graph and the subtour elimination loop\<close>

text \<open>
  The development follows \<^verbatim>\<open>continuous_line_tsp_dfj_calling_pulp.py\<close> (and its twin
  \<^verbatim>\<open>continuous_line_tsp_dfj_calling_grb.py\<close>, which differs only in the solver calls);
  \<^verbatim>\<open>continuous_line_tsp_dfj_grb_2.py\<close> builds the same nodes and arcs on plain tuples.
  Of the two callback variants, the constraint of \<^verbatim>\<open>continuous_line_tsp_dfj_grb_2.py\<close> and the
  whole callback of \<^verbatim>\<open>continuous_line_tsp_dfj_grb.py\<close> are modelled as well.
\<close>

subsection \<open>Cells, nodes and arcs\<close>

text \<open>
  \<^verbatim>\<open>class Cell\<close> has the fields \<^verbatim>\<open>row\<close> and \<^verbatim>\<open>col\<close>. A \<^verbatim>\<open>Node\<close> wraps one cell; the
  program compares nodes by object identity. The node loop creates one object per cell
  and the dummy node wraps the cell (0, 0), which the loop never visits, so identity of
  nodes coincides with equality of their cells (lemma \<open>distinct_nodes\<close> below) and a node
  is modelled by its cell. The two arc lists a \<^verbatim>\<open>Node\<close> object carries are kept in the
  graph record.
\<close>

record Cell =
  row :: int
  col :: int

type_synonym node = Cell
type_synonym arc = "node \<times> node"

definition dummy_node :: node where
  "dummy_node = \<lparr>row = 0, col = 0\<rparr>"

text \<open>
  \<^verbatim>\<open>
  N = []
  for i in range(1, num_rows + 1):
      for j in range(1, num_cols + 1):
          if (i, j) not in H:
              N.append(Node(Cell(i, j)))
  dummy_node = Node(Cell(0, 0))
  N.append(dummy_node)
  \<close>
\<close>

definition real_nodes :: "int \<Rightarrow> int \<Rightarrow> (int \<times> int) list \<Rightarrow> node list" where
  "real_nodes num_rows num_cols H =
     [\<lparr>row = i, col = j\<rparr>. i \<leftarrow> [1..num_rows], j \<leftarrow> [1..num_cols], (i, j) \<notin> set H]"

definition nodes :: "int \<Rightarrow> int \<Rightarrow> (int \<times> int) list \<Rightarrow> node list" where
  "nodes num_rows num_cols H = real_nodes num_rows num_cols H @ [dummy_node]"

text \<open>
  The puzzle's connection rule, the second disjunct of the arc condition:
  \<^verbatim>\<open>
  origin.cell.row == destination.cell.row and abs(origin.cell.col - destination.cell.col) == 1 or
  origin.cell.col == destination.cell.col and abs(origin.cell.row - destination.cell.row) == 1
  \<close>
\<close>

definition adjacent :: "node \<Rightarrow> node \<Rightarrow> bool" where
  "adjacent origin destination \<longleftrightarrow>
     row origin = row destination \<and> \<bar>col origin - col destination\<bar> = 1 \<or>
     col origin = col destination \<and> \<bar>row origin - row destination\<bar> = 1"

definition arc_rule :: "node \<Rightarrow> node \<Rightarrow> bool" where
  "arc_rule origin destination \<longleftrightarrow>
     ((origin = dummy_node) \<noteq> (destination = dummy_node)) \<or> adjacent origin destination"

text \<open>
  \<^verbatim>\<open>
  A = []
  for origin in N:
      for destination in N:
          if <arc rule>:
              A.append((origin, destination))
              origin.ongoing_arcs.append((origin, destination))
              destination.incoming_arcs.append((origin, destination))
  \<close>
  The loop threads three pieces of state: the list \<^verbatim>\<open>A\<close> and the two lists of every node.
\<close>

record graph =
  arc_list :: "arc list"
  ongoing_arcs :: "node \<Rightarrow> arc list"
  incoming_arcs :: "node \<Rightarrow> arc list"

definition empty_graph :: graph where
  "empty_graph = \<lparr>arc_list = [], ongoing_arcs = (\<lambda>_. []), incoming_arcs = (\<lambda>_. [])\<rparr>"

definition add_arc :: "node \<Rightarrow> node \<Rightarrow> graph \<Rightarrow> graph" where
  "add_arc origin destination g =
     (if arc_rule origin destination
      then \<lparr>arc_list = arc_list g @ [(origin, destination)],
            ongoing_arcs = (ongoing_arcs g)
              (origin := ongoing_arcs g origin @ [(origin, destination)]),
            incoming_arcs = (incoming_arcs g)
              (destination := incoming_arcs g destination @ [(origin, destination)])\<rparr>
      else g)"

definition create_arcs :: "node list \<Rightarrow> graph" where
  "create_arcs N = fold (\<lambda>origin. fold (\<lambda>destination. add_arc origin destination) N) N empty_graph"

text \<open>
  \<^verbatim>\<open>continuous_line_tsp_dfj_grb_2.py\<close> keeps only the list \<^verbatim>\<open>A\<close> and reads a node's arcs
  off it (\<^verbatim>\<open>for out in A if out[0] == node\<close>).
\<close>

definition arcs :: "node list \<Rightarrow> arc list" where
  "arcs N = [(origin, destination). origin \<leftarrow> N, destination \<leftarrow> N, arc_rule origin destination]"

text \<open>
  The program has no input validation and raises no error of its own while it builds the
  graph; the only failures of the scripts are Python's \<^verbatim>\<open>KeyError\<close>, \<^verbatim>\<open>IndexError\<close>,
  \<^verbatim>\<open>ValueError\<close> and the final \<^verbatim>\<open>assert\<close>, all in the solution part.
\<close>

datatype error = KeyError | IndexError | ValueError | AssertionError

definition build_graph :: "int \<Rightarrow> int \<Rightarrow> (int \<times> int) list \<Rightarrow> error + (node list \<times> graph)" where
  "build_graph num_rows num_cols H =
     Inr (nodes num_rows num_cols H, create_arcs (nodes num_rows num_cols H))"

subsection \<open>Variables, constraints and the degree formulation\<close>

text \<open>
  A linear constraint as the scripts hand it to the solver: the arcs whose variables are
  summed (every coefficient is 1), the relation and the right-hand side.
\<close>

datatype relation = EQ | LE

record constraint =
  lhs :: "arc list"
  sense :: relation
  rhs :: int

text \<open>
  \<^verbatim>\<open>
  x = pulp.LpVariable.dicts(indexs=A, cat=pulp.LpBinary, name='x')
  for node in N:
      mdl.addConstraint(sum(x[out] for out in node.ongoing_arcs) == 1, name=f'origin_{node}')
      mdl.addConstraint(sum(x[into] for into in node.incoming_arcs) == 1, name=f'destination_{node}')
  \<close>
  For a node without arcs Python evaluates the empty sum to 0 and the comparison to
  \<^verbatim>\<open>False\<close> instead of building a constraint; this arises only on a grid without real
  nodes, where the dummy node has no arc. The model keeps the constraint with the empty
  sum, which no values satisfy.
\<close>

record formulation =
  variables :: "arc list"
  constraints :: "constraint list"

definition degree_constraints :: "node list \<Rightarrow> graph \<Rightarrow> constraint list" where
  "degree_constraints N g =
     concat (map (\<lambda>node. [\<lparr>lhs = ongoing_arcs g node, sense = EQ, rhs = 1\<rparr>,
                          \<lparr>lhs = incoming_arcs g node, sense = EQ, rhs = 1\<rparr>]) N)"

definition formulate :: "node list \<Rightarrow> graph \<Rightarrow> formulation" where
  "formulate N g = \<lparr>variables = arc_list g, constraints = degree_constraints N g\<rparr>"

text \<open>
  The solver is external. Its answer is read through \<^verbatim>\<open>x[a].value()\<close>, modelled as a
  function from arcs to integers; what it means for such values to meet a constraint and
  to be binary is the solver's contract.
\<close>

definition satisfies :: "(arc \<Rightarrow> int) \<Rightarrow> constraint \<Rightarrow> bool" where
  "satisfies x c =
     (case sense c of
        EQ \<Rightarrow> sum_list (map x (lhs c)) = rhs c
      | LE \<Rightarrow> sum_list (map x (lhs c)) \<le> rhs c)"

definition binary :: "(arc \<Rightarrow> int) \<Rightarrow> arc list \<Rightarrow> bool" where
  "binary x A \<longleftrightarrow> list_all (\<lambda>a. x a = 0 \<or> x a = 1) A"

subsection \<open>The subtour routine of the iterative variants\<close>

text \<open>
  \<^verbatim>\<open>
  def subtour(model):
      sol = {a[0]: a[1] for a in A if x[a].value() == 1}
      init = None
      for a in A:
          if x[a].value() == 1:
              init = a[0]
      next = sol[init]
      arc_cycle = []
      while next != dummy_node:
          previous = next
          next = sol[next]
          arc_cycle.append((previous, next))
      arc_cycle.append((arc_cycle[len(arc_cycle) - 1][1], arc_cycle[0][0]))
      return arc_cycle
  \<close>
  A later entry of the dict comprehension overwrites an earlier one with the same key.
  A failed lookup \<^verbatim>\<open>sol[...]\<close> raises \<^verbatim>\<open>KeyError\<close>; indexing the empty \<^verbatim>\<open>arc_cycle\<close> raises
  \<^verbatim>\<open>IndexError\<close>. The while loop need not end: \<open>None\<close> is the run that never returns.
\<close>

definition sol_of :: "arc list \<Rightarrow> (arc \<Rightarrow> int) \<Rightarrow> (node \<rightharpoonup> node)" where
  "sol_of A x = fold (\<lambda>a sol. if x a = 1 then sol(fst a \<mapsto> snd a) else sol) A Map.empty"

definition init_of :: "arc list \<Rightarrow> (arc \<Rightarrow> int) \<Rightarrow> node option" where
  "init_of A x = fold (\<lambda>a init. if x a = 1 then Some (fst a) else init) A None"

partial_function (option) walk ::
  "(node \<rightharpoonup> node) \<Rightarrow> node \<Rightarrow> arc list \<Rightarrow> (error + arc list) option" where
  "walk sol next arc_cycle =
     (if next \<noteq> dummy_node
      then (case sol next of
              None \<Rightarrow> Some (Inl KeyError)
            | Some next' \<Rightarrow> walk sol next' (arc_cycle @ [(next, next')]))
      else Some (Inr arc_cycle))"

definition subtour :: "arc list \<Rightarrow> (arc \<Rightarrow> int) \<Rightarrow> (error + arc list) option" where
  "subtour A x =
     (let sol = sol_of A x in
      case init_of A x of
        None \<Rightarrow> Some (Inl KeyError)
      | Some init \<Rightarrow>
          (case sol init of
             None \<Rightarrow> Some (Inl KeyError)
           | Some next \<Rightarrow>
               (case walk sol next [] of
                  None \<Rightarrow> None
                | Some (Inl e) \<Rightarrow> Some (Inl e)
                | Some (Inr arc_cycle) \<Rightarrow>
                    if arc_cycle = [] then Some (Inl IndexError)
                    else Some (Inr (arc_cycle @ [(snd (last arc_cycle), fst (hd arc_cycle))])))))"

subsection \<open>Elimination constraints and the loop\<close>

text \<open>
  \<^verbatim>\<open>itertools.permutations(nodes, 2)\<close> yields the ordered pairs of entries at two different
  positions, the first position running slowest.
  \<^verbatim>\<open>
  nodes = [a[0] for a in tour]
  mdl.addConstraint(sum(x[(i,j)] for i, j in permutations(nodes, 2) if (i, j) in A) <= len(tour) - 1)
  \<close>
\<close>

definition permutations2 :: "'a list \<Rightarrow> ('a \<times> 'a) list" where
  "permutations2 xs = [(xs ! i, xs ! j). i \<leftarrow> [0..<length xs], j \<leftarrow> [0..<length xs], i \<noteq> j]"

definition elimination_constraint :: "arc list \<Rightarrow> arc list \<Rightarrow> constraint" where
  "elimination_constraint A tour =
     (let nodes = map fst tour in
      \<lparr>lhs = filter (\<lambda>a. a \<in> set A) (permutations2 nodes), sense = LE,
       rhs = int (length tour) - 1\<rparr>)"

text \<open>
  \<^verbatim>\<open>
  tour_length = 0
  while tour_length < n:
      mdl.solve(solver)
      tour = subtour(mdl)
      tour_length = len(tour)
      if n > len(tour) > 1:
          nodes = [a[0] for a in tour]
          mdl.addConstraint(...)
  tour = subtour(mdl)
  assert len(tour) == n
  \<close>
  The state of the loop is the constraint list of the model, the values of the last solve
  and \<^verbatim>\<open>tour_length\<close>. The solver is a parameter: it maps the constraints registered so
  far to the values it leaves in the variables.
\<close>

record loop_state =
  registered :: "constraint list"
  x_value :: "arc \<Rightarrow> int"
  tour_length :: nat

definition iteration :: "(constraint list \<Rightarrow> arc \<Rightarrow> int) \<Rightarrow> nat \<Rightarrow> arc list \<Rightarrow> loop_state \<Rightarrow>
    (error + loop_state) option" where
  "iteration solve n A s =
     (let x = solve (registered s) in
      case subtour A x of
        None \<Rightarrow> None
      | Some (Inl e) \<Rightarrow> Some (Inl e)
      | Some (Inr tour) \<Rightarrow>
          Some (Inr \<lparr>registered =
                       (if n > length tour \<and> length tour > 1
                        then registered s @ [elimination_constraint A tour]
                        else registered s),
                     x_value = x, tour_length = length tour\<rparr>))"




declare walk.simps [code]

text \<open>
  The callback of \<^verbatim>\<open>continuous_line_tsp_dfj_grb_2.py\<close> builds the same constraint from the
  cycle its own \<^verbatim>\<open>subtour\<close> returns:
  \<^verbatim>\<open>
  if model._n > len(cycle) > 1:
      nodes = [a[0] for a in cycle]
      model.cbLazy(gp.quicksum(model._x[i, j] for i, j in permutations(nodes, 2)
                               if (i, j) in model._A) <= len(cycle) - 1)
  \<close>
\<close>

definition subtour_constraint :: "nat \<Rightarrow> arc list \<Rightarrow> arc list \<Rightarrow> constraint option" where
  "subtour_constraint n A cycle =
     (if n > length cycle \<and> length cycle > 1 then Some (elimination_constraint A cycle) else None)"

subsection \<open>The callback of the first Gurobi variant\<close>

text \<open>
  \<^verbatim>\<open>continuous_line_tsp_dfj_grb.py\<close> has a \<^verbatim>\<open>subtour\<close> of its own, taken from a program
  whose cities are the integers below \<^verbatim>\<open>n\<close>:
  \<^verbatim>\<open>
  def subtour(edges):
      unvisited = list(range(n))
      cycle = range(n + 1)  # initial length has 1 more city
      while unvisited:  # true if list is non-empty
          thiscycle = []
          neighbors = unvisited
          while neighbors:
              current = neighbors[0]
              thiscycle.append(current)
              unvisited.remove(current)
              neighbors = [j for i, j in edges.select(current, '*')
                           if j in unvisited]
          if len(cycle) > len(thiscycle):
              cycle = thiscycle
      arc_cicles = []
      for i in range(1, len(cycle)):
          arc_cicles.append((cycle[i-1], cycle[i]))
      arc_cicles.append((cycle[len(cycle)-1], cycle[0]))
      return arc_cicles
  \<close>
  Here the edges are pairs of \<^verbatim>\<open>Node\<close> objects, so the lists of this routine can hold
  integers and nodes; an integer never equals a node. \<^verbatim>\<open>edges.select(current, '*')\<close> is
  the library's lookup of the edges whose first component equals \<^verbatim>\<open>current\<close>;
  \<^verbatim>\<open>unvisited.remove\<close> raises \<^verbatim>\<open>ValueError\<close> when the entry is absent.
\<close>

datatype pyobj = Index nat | NodeObj node

definition select :: "arc list \<Rightarrow> pyobj \<Rightarrow> arc list" where
  "select edges current = filter (\<lambda>(i, j). NodeObj i = current) edges"

partial_function (option) visit ::
  "arc list \<Rightarrow> pyobj list \<Rightarrow> pyobj list \<Rightarrow> pyobj list \<Rightarrow> (error + pyobj list \<times> pyobj list) option" where
  "visit edges neighbors thiscycle unvisited =
     (case neighbors of
        [] \<Rightarrow> Some (Inr (thiscycle, unvisited))
      | current # _ \<Rightarrow>
          if current \<in> set unvisited
          then visit edges
                 [NodeObj j. (i, j) \<leftarrow> select edges current,
                    NodeObj j \<in> set (remove1 current unvisited)]
                 (thiscycle @ [current]) (remove1 current unvisited)
          else Some (Inl ValueError))"

partial_function (option) find_cycle ::
  "arc list \<Rightarrow> pyobj list \<Rightarrow> pyobj list \<Rightarrow> (error + pyobj list) option" where
  "find_cycle edges unvisited cycle =
     (if unvisited \<noteq> []
      then (case visit edges unvisited [] unvisited of
              None \<Rightarrow> None
            | Some (Inl e) \<Rightarrow> Some (Inl e)
            | Some (Inr (thiscycle, unvisited')) \<Rightarrow>
                find_cycle edges unvisited'
                  (if length cycle > length thiscycle then thiscycle else cycle))
      else Some (Inr cycle))"

definition subtour_dfj_grb :: "nat \<Rightarrow> arc list \<Rightarrow> (error + (pyobj \<times> pyobj) list) option" where
  "subtour_dfj_grb n edges =
     (case find_cycle edges (map Index [0..<n]) (map Index [0..<n + 1]) of
        None \<Rightarrow> None
      | Some (Inl e) \<Rightarrow> Some (Inl e)
      | Some (Inr cycle) \<Rightarrow>
          if cycle = [] then Some (Inl IndexError)
          else Some (Inr (map (\<lambda>i. (cycle ! (i - 1), cycle ! i)) [1..<length cycle] @
                          [(cycle ! (length cycle - 1), cycle ! 0)])))"

declare visit.simps [code]
declare find_cycle.simps [code]

text \<open>
  \<^verbatim>\<open>
  vals = model.cbGetSolution(model._vars)
  selected = gp.tuplelist((i, j) for i, j in model._vars.keys() if vals[i, j] > 0.5)
  tour = subtour(selected)
  if n > len(tour) > 1:
      # add subtour elimination constr. for every pair of cities in tour
      model.cbLazy(gp.quicksum(model._vars[a] for a in tour) <= len(tour) - 1)
  \<close>
  This is the branch of \<^verbatim>\<open>subtourelim\<close> for a new incumbent; in every other case the
  callback registers nothing. The variables are keyed by the arcs; \<^verbatim>\<open>model._vars[a]\<close>
  raises \<^verbatim>\<open>KeyError\<close> for any other key. An integer value exceeds 0.5 when it is positive.
  The result is the constraint registered, if any.
\<close>

fun vars_of :: "arc list \<Rightarrow> (pyobj \<times> pyobj) list \<Rightarrow> error + arc list" where
  "vars_of A [] = Inr []"
| "vars_of A ((NodeObj i, NodeObj j) # tour) =
     (if (i, j) \<in> set A
      then (case vars_of A tour of Inl e \<Rightarrow> Inl e | Inr as \<Rightarrow> Inr ((i, j) # as))
      else Inl KeyError)"
| "vars_of A (_ # tour) = Inl KeyError"

definition subtourelim :: "nat \<Rightarrow> arc list \<Rightarrow> (arc \<Rightarrow> int) \<Rightarrow> (error + constraint option) option" where
  "subtourelim n A vals =
     (case subtour_dfj_grb n (filter (\<lambda>a. 0 < vals a) A) of
        None \<Rightarrow> None
      | Some (Inl e) \<Rightarrow> Some (Inl e)
      | Some (Inr tour) \<Rightarrow>
          if n > length tour \<and> length tour > 1
          then (case vars_of A tour of
                  Inl e \<Rightarrow> Some (Inl e)
                | Inr as \<Rightarrow> Some (Inr (Some \<lparr>lhs = as, sense = LE, rhs = int (length tour) - 1\<rparr>)))
          else Some (Inr None))"

subsection \<open>Notions used to state the properties\<close>

text \<open>Row-major order of cells: by row, then by column.\<close>

definition row_major :: "node \<Rightarrow> node \<Rightarrow> bool" where
  "row_major a b \<longleftrightarrow> row a < row b \<or> row a = row b \<and> col a < col b"

text \<open>A hole inside the bounds of the grid.\<close>

definition in_bounds :: "int \<Rightarrow> int \<Rightarrow> int \<times> int \<Rightarrow> bool" where
  "in_bounds num_rows num_cols h \<longleftrightarrow>
     1 \<le> fst h \<and> fst h \<le> num_rows \<and> 1 \<le> snd h \<and> snd h \<le> num_cols"

text \<open>
  The selected arcs are those whose variable has the value 1. They form a functional
  successor mapping when every node is the origin of exactly one selected arc and the
  destination of exactly one.
\<close>

definition selected :: "(arc \<Rightarrow> int) \<Rightarrow> arc list \<Rightarrow> arc list" where
  "selected x A = filter (\<lambda>a. x a = 1) A"

definition functional :: "node list \<Rightarrow> arc list \<Rightarrow> (arc \<Rightarrow> int) \<Rightarrow> bool" where
  "functional N A x \<longleftrightarrow>
     list_all (\<lambda>v. length (filter (\<lambda>a. fst a = v) (selected x A)) = 1 \<and>
                   length (filter (\<lambda>a. snd a = v) (selected x A)) = 1) N"

text \<open>
  The successor of a node in the candidate solution is the destination of the selected
  arc that leaves it; the cycle of a node is what iterating the successor reaches (a
  cycle of a mapping on the nodes of \<open>N\<close> has at most \<open>length N\<close> members); the
  decomposition is the set of the cycles of all nodes.
\<close>

definition successor :: "arc list \<Rightarrow> (arc \<Rightarrow> int) \<Rightarrow> node \<Rightarrow> node" where
  "successor A x v = (case filter (\<lambda>a. fst a = v) (selected x A) of [] \<Rightarrow> v | a # _ \<Rightarrow> snd a)"

definition cycle_of :: "node list \<Rightarrow> (node \<Rightarrow> node) \<Rightarrow> node \<Rightarrow> node set" where
  "cycle_of N f v = (\<lambda>i. (f ^^ i) v) ` {..<length N}"

definition decomposition :: "node list \<Rightarrow> (node \<Rightarrow> node) \<Rightarrow> node set set" where
  "decomposition N f = cycle_of N f ` set N"

text \<open>The arcs of the cycle through \<open>d\<close> with \<open>k\<close> nodes, in the order \<^verbatim>\<open>subtour\<close> lists them.\<close>

definition cycle_arcs :: "(node \<Rightarrow> node) \<Rightarrow> node \<Rightarrow> nat \<Rightarrow> arc list" where
  "cycle_arcs f d k = map (\<lambda>j. ((f ^^ Suc j) d, (f ^^ Suc (Suc j)) d)) [0..<k - 1] @ [(d, f d)]"

subsection \<open>Two candidate solutions\<close>

text \<open>
  On the 1 x 3 grid without holes: the cells (1, 1) and (1, 2) point at each other, and
  the cell (1, 3) and the dummy node point at each other. Every node has one selected
  arc out and one in.
\<close>

definition two_cycles :: "arc \<Rightarrow> int" where
  "two_cycles a =
     (if a \<in> {(\<lparr>row = 1, col = 1\<rparr>, \<lparr>row = 1, col = 2\<rparr>),
               (\<lparr>row = 1, col = 2\<rparr>, \<lparr>row = 1, col = 1\<rparr>),
               (\<lparr>row = 1, col = 3\<rparr>, dummy_node),
               (dummy_node, \<lparr>row = 1, col = 3\<rparr>)} then 1 else 0)"

text \<open>
  On the 1 x 2 grid without holes: from the dummy node to (1, 1), on to (1, 2) and back
  to the dummy node.
\<close>

definition one_cycle :: "arc \<Rightarrow> int" where
  "one_cycle a =
     (if a \<in> {(dummy_node, \<lparr>row = 1, col = 1\<rparr>),
               (\<lparr>row = 1, col = 1\<rparr>, \<lparr>row = 1, col = 2\<rparr>),
               (\<lparr>row = 1, col = 2\<rparr>, dummy_node)} then 1 else 0)"


section \<open>Properties\<close>

subsection \<open>The node list\<close>

lemma adjacent_irrefl: "\<not> adjacent v v"
  by (simp add: adjacent_def)

lemma arc_rule_irrefl: "\<not> arc_rule v v"
  by (simp add: arc_rule_def adjacent_irrefl)

lemma concat_map_if: "concat (map (\<lambda>j. if P j then [f j] else []) ys) = map f (filter P ys)"
  by (induction ys) simp_all

lemma real_nodes_product:
  "real_nodes R C H =
     map (\<lambda>(i, j). \<lparr>row = i, col = j\<rparr>)
       (filter (\<lambda>p. p \<notin> set H) (List.product [1..R] [1..C]))"
proof -
  have "concat (map (\<lambda>i. map (\<lambda>j. \<lparr>row = i, col = j\<rparr>) (filter (\<lambda>j. (i, j) \<notin> set H) ys)) xs) =
        map (\<lambda>(i, j). \<lparr>row = i, col = j\<rparr>) (filter (\<lambda>p. p \<notin> set H) (List.product xs ys))"
    for xs ys :: "int list"
    by (induction xs) (simp_all add: filter_map comp_def)
  then show ?thesis
    by (simp add: real_nodes_def concat_map_if)
qed

lemma mem_real_nodes:
  "v \<in> set (real_nodes R C H) \<longleftrightarrow>
     1 \<le> row v \<and> row v \<le> R \<and> 1 \<le> col v \<and> col v \<le> C \<and> (row v, col v) \<notin> set H"
  by (cases v) (auto simp: real_nodes_product image_iff)

lemma set_real_nodes:
  "set (real_nodes R C H) =
     {v. 1 \<le> row v \<and> row v \<le> R \<and> 1 \<le> col v \<and> col v \<le> C \<and> (row v, col v) \<notin> set H}"
  by (auto simp: mem_real_nodes)

lemma inj_mk_cell: "inj_on (\<lambda>(i, j). \<lparr>row = i, col = j\<rparr>) S"
  by (auto simp: inj_on_def)

lemma distinct_real_nodes: "distinct (real_nodes R C H)"
  by (simp add: real_nodes_product distinct_map distinct_product inj_mk_cell)

lemma dummy_not_real: "dummy_node \<notin> set (real_nodes R C H)"
  by (simp add: set_real_nodes dummy_node_def)

lemma distinct_nodes: "distinct (nodes R C H)"
  by (simp add: nodes_def distinct_real_nodes dummy_not_real)

lemma sorted_product:
  "sorted_wrt (<) xs \<Longrightarrow> sorted_wrt (<) ys \<Longrightarrow>
   sorted_wrt (\<lambda>p q. fst p < fst q \<or> fst p = fst q \<and> snd p < snd q) (List.product xs ys)"
  for xs ys :: "int list"
  by (induction xs) (auto simp: sorted_wrt_append sorted_wrt_map)

lemma sorted_real_nodes: "sorted_wrt row_major (real_nodes R C H)"
proof -
  have "sorted_wrt (\<lambda>p q. fst p < fst q \<or> fst p = fst q \<and> snd p < snd q) (List.product [1..R] [1..C])"
    by (rule sorted_product) (simp_all add: sorted_wrt_upto)
  then have "sorted_wrt (\<lambda>p q. fst p < fst q \<or> fst p = fst q \<and> snd p < snd q)
               (filter (\<lambda>p. p \<notin> set H) (List.product [1..R] [1..C]))"
    by (rule sorted_wrt_filter)
  then show ?thesis
    by (simp add: real_nodes_product sorted_wrt_map row_major_def case_prod_beta)
qed


subsection \<open>The arc loop in closed form\<close>

lemma arcs_concat: "arcs N = concat (map (\<lambda>origin. map (Pair origin) (filter (arc_rule origin) N)) N)"
  by (simp add: arcs_def concat_map_if)

lemma fold_add_arc:
  fixes origin ds
  defines "L \<equiv> map (Pair origin) (filter (arc_rule origin) ds)"
  shows "arc_list (fold (add_arc origin) ds g) = arc_list g @ L"
    and "ongoing_arcs (fold (add_arc origin) ds g) v = ongoing_arcs g v @ filter (\<lambda>a. fst a = v) L"
    and "incoming_arcs (fold (add_arc origin) ds g) v = incoming_arcs g v @ filter (\<lambda>a. snd a = v) L"
  unfolding L_def
  by (induction ds arbitrary: g) (simp_all add: add_arc_def)

lemma fold_fold_add_arc:
  fixes os N
  defines "L \<equiv> concat (map (\<lambda>origin. map (Pair origin) (filter (arc_rule origin) N)) os)"
  shows "arc_list (fold (\<lambda>origin. fold (add_arc origin) N) os g) = arc_list g @ L"
    and "ongoing_arcs (fold (\<lambda>origin. fold (add_arc origin) N) os g) v = ongoing_arcs g v @ filter (\<lambda>a. fst a = v) L"
    and "incoming_arcs (fold (\<lambda>origin. fold (add_arc origin) N) os g) v = incoming_arcs g v @ filter (\<lambda>a. snd a = v) L"
  unfolding L_def
  by (induction os arbitrary: g) (simp_all add: fold_add_arc)

lemma arc_list_create_arcs: "arc_list (create_arcs N) = arcs N"
  by (simp add: create_arcs_def fold_fold_add_arc arcs_concat empty_graph_def)

lemma ongoing_arcs_create_arcs: "ongoing_arcs (create_arcs N) v = filter (\<lambda>a. fst a = v) (arcs N)"
  by (simp add: create_arcs_def fold_fold_add_arc arcs_concat empty_graph_def)

lemma incoming_arcs_create_arcs: "incoming_arcs (create_arcs N) v = filter (\<lambda>a. snd a = v) (arcs N)"
  by (simp add: create_arcs_def fold_fold_add_arc arcs_concat empty_graph_def)

lemma mem_arcs: "(u, v) \<in> set (arcs N) \<longleftrightarrow> u \<in> set N \<and> v \<in> set N \<and> arc_rule u v"
  by (auto simp: arcs_def)

lemma arcs_product: "arcs N = filter (\<lambda>(origin, destination). arc_rule origin destination) (List.product N N)"
proof -
  have "concat (map (\<lambda>origin. map (Pair origin) (filter (arc_rule origin) ys)) xs) =
        filter (\<lambda>(origin, destination). arc_rule origin destination) (List.product xs ys)" for xs ys
    by (induction xs) (simp_all add: filter_map comp_def)
  then show ?thesis
    by (simp add: arcs_concat)
qed

lemma distinct_arcs: "distinct N \<Longrightarrow> distinct (arcs N)"
  by (simp add: arcs_product distinct_product)

subsection \<open>The dict, the start node and the walk\<close>

lemma fold_sol:
  "fold (\<lambda>a sol. if x a = 1 then sol(fst a \<mapsto> snd a) else sol) A m v =
     (case filter (\<lambda>a. fst a = v) (selected x A) of [] \<Rightarrow> m v | a # as \<Rightarrow> Some (snd (last (a # as))))"
  by (induction A arbitrary: m) (auto simp: selected_def split: list.splits)

lemma sol_of_single:
  "filter (\<lambda>a. fst a = v) (selected x A) = [a] \<Longrightarrow> sol_of A x v = Some (snd a)"
  by (simp add: sol_of_def fold_sol)

lemma fold_init:
  "fold (\<lambda>a init. if x a = 1 then Some (fst a) else init) A i =
     (if selected x A = [] then i else Some (fst (last (selected x A))))"
  by (induction A arbitrary: i) (auto simp: selected_def)

lemma init_of_last:
  "init_of A x = (if selected x A = [] then None else Some (fst (last (selected x A))))"
  by (simp add: init_of_def fold_init)

lemma filter_single_eq:
  "length (filter P xs) = 1 \<Longrightarrow> a \<in> set xs \<Longrightarrow> P a \<Longrightarrow> b \<in> set xs \<Longrightarrow> P b \<Longrightarrow> a = b"
proof -
  assume l: "length (filter P xs) = 1" and a: "a \<in> set xs" "P a" and b: "b \<in> set xs" "P b"
  from l obtain c where c: "filter P xs = [c]"
    by (cases "filter P xs") auto
  from a b have "a \<in> set (filter P xs)" "b \<in> set (filter P xs)" by auto
  with c show "a = b" by simp
qed

lemma funpow_returns:
  assumes fin: "finite S" and into: "f ` S \<subseteq> S" and inj: "inj_on f S" and d: "d \<in> S"
  shows "\<exists>k>0. (f ^^ k) d = d"
proof -
  have mem: "(f ^^ i) d \<in> S" for i
    using into d by (induction i) auto
  have "\<not> inj_on (\<lambda>i. (f ^^ i) d) {..card S}"
  proof
    assume "inj_on (\<lambda>i. (f ^^ i) d) {..card S}"
    moreover have "(\<lambda>i. (f ^^ i) d) ` {..card S} \<subseteq> S" using mem by auto
    ultimately have "card {..card S} \<le> card S"
      using fin card_inj_on_le by blast
    then show False by simp
  qed
  then obtain i j where ij: "i < j" "(f ^^ i) d = (f ^^ j) d"
    unfolding inj_on_def by (metis linorder_neqE_nat)
  have cancel: "(f ^^ i) d = (f ^^ (i + m)) d \<Longrightarrow> d = (f ^^ m) d" for i m
  proof (induction i)
    case 0
    then show ?case by simp
  next
    case (Suc i)
    then have "f ((f ^^ i) d) = f ((f ^^ (i + m)) d)" by simp
    then have "(f ^^ i) d = (f ^^ (i + m)) d"
      using inj mem by (auto dest: inj_onD)
    then show ?case by (rule Suc.IH)
  qed
  from ij have "(f ^^ i) d = (f ^^ (i + (j - i))) d" by simp
  then have "d = (f ^^ (j - i)) d" by (rule cancel)
  with ij(1) show ?thesis by (intro exI[of _ "j - i"]) simp
qed

lemma walk_reaches:
  assumes "\<forall>j<m. (f ^^ j) v \<noteq> dummy_node \<and> sol ((f ^^ j) v) = Some ((f ^^ Suc j) v)"
    and "(f ^^ m) v = dummy_node"
  shows "walk sol v acc = Some (Inr (acc @ map (\<lambda>j. ((f ^^ j) v, (f ^^ Suc j) v)) [0..<m]))"
  using assms
proof (induction m arbitrary: v acc)
  case 0
  then show ?case by (simp add: walk.simps)
next
  case (Suc m)
  from Suc.prems(1) have v: "v \<noteq> dummy_node" "sol v = Some (f v)"
    by (auto dest: spec[of _ 0])
  have step: "\<forall>j<m. (f ^^ j) (f v) \<noteq> dummy_node \<and> sol ((f ^^ j) (f v)) = Some ((f ^^ Suc j) (f v))"
  proof (intro allI impI)
    fix j assume "j < m"
    then have "Suc j < Suc m" by simp
    with Suc.prems(1) have "(f ^^ Suc j) v \<noteq> dummy_node \<and> sol ((f ^^ Suc j) v) = Some ((f ^^ Suc (Suc j)) v)"
      by blast
    then show "(f ^^ j) (f v) \<noteq> dummy_node \<and> sol ((f ^^ j) (f v)) = Some ((f ^^ Suc j) (f v))"
      by (simp add: funpow_swap1)
  qed
  from Suc.prems(2) have reach: "(f ^^ m) (f v) = dummy_node"
    by (simp add: funpow_swap1)
  have "walk sol v acc = walk sol (f v) (acc @ [(v, f v)])"
    using v by (subst walk.simps) simp
  also have "\<dots> = Some (Inr ((acc @ [(v, f v)]) @ map (\<lambda>j. ((f ^^ j) (f v), (f ^^ Suc j) (f v))) [0..<m]))"
    by (rule Suc.IH[OF step reach])
  also have "(acc @ [(v, f v)]) @ map (\<lambda>j. ((f ^^ j) (f v), (f ^^ Suc j) (f v))) [0..<m] =
             acc @ map (\<lambda>j. ((f ^^ j) v, (f ^^ Suc j) v)) [0..<Suc m]"
    by (simp add: map_upt_Suc funpow_swap1 del: upt_Suc)
  finally show ?case .
qed

subsection \<open>Candidate solutions that are functional successor mappings\<close>

lemma functional_D:
  assumes "functional N A x" "v \<in> set N"
  shows "length (filter (\<lambda>a. fst a = v) (selected x A)) = 1"
    and "length (filter (\<lambda>a. snd a = v) (selected x A)) = 1"
  using assms by (auto simp: functional_def list_all_iff)

lemma successor_props:
  assumes fn: "functional N (arcs N) x" and v: "v \<in> set N"
  shows "sol_of (arcs N) x v = Some (successor (arcs N) x v)"
    and "(v, successor (arcs N) x v) \<in> set (arcs N)"
    and "x (v, successor (arcs N) x v) = 1"
    and "successor (arcs N) x v \<in> set N"
    and "successor (arcs N) x v \<noteq> v"
proof -
  from functional_D(1)[OF fn v] obtain a where a: "filter (\<lambda>a. fst a = v) (selected x (arcs N)) = [a]"
    by (cases "filter (\<lambda>a. fst a = v) (selected x (arcs N))") auto
  then have "a \<in> set (filter (\<lambda>a. fst a = v) (selected x (arcs N)))" by simp
  then have mem: "a \<in> set (arcs N)" "x a = 1" "fst a = v"
    by (auto simp: selected_def)
  from a have eq: "successor (arcs N) x v = snd a"
    by (simp add: successor_def)
  with sol_of_single[OF a] show s: "sol_of (arcs N) x v = Some (successor (arcs N) x v)"
    by simp
  from mem(3) eq have av: "a = (v, successor (arcs N) x v)"
    by (simp add: prod_eq_iff)
  with mem show "(v, successor (arcs N) x v) \<in> set (arcs N)" "x (v, successor (arcs N) x v) = 1"
    by simp_all
  then show "successor (arcs N) x v \<in> set N" "successor (arcs N) x v \<noteq> v"
    using arc_rule_irrefl by (auto simp: mem_arcs)
qed

lemma successor_inj:
  assumes fn: "functional N (arcs N) x"
  shows "inj_on (successor (arcs N) x) (set N)"
proof (rule inj_onI)
  fix u v assume u: "u \<in> set N" and v: "v \<in> set N"
    and eq: "successor (arcs N) x u = successor (arcs N) x v"
  let ?w = "successor (arcs N) x v"
  have w: "?w \<in> set N" by (rule successor_props(4)[OF fn v])
  have "(u, ?w) \<in> set (selected x (arcs N))" "(v, ?w) \<in> set (selected x (arcs N))"
    using successor_props(2,3)[OF fn u] successor_props(2,3)[OF fn v] eq
    by (simp_all add: selected_def)
  then have "(u, ?w) = (v, ?w)"
    using filter_single_eq[OF functional_D(2)[OF fn w], of "(u, ?w)" "(v, ?w)"] by simp
  then show "u = v" by simp
qed

lemma init_of_dummy:
  assumes fn: "functional (ns @ [dummy_node]) (arcs (ns @ [dummy_node])) x"
    and nd: "dummy_node \<notin> set ns"
  shows "init_of (arcs (ns @ [dummy_node])) x = Some dummy_node"
proof -
  let ?N = "ns @ [dummy_node]"
  let ?B = "map (Pair dummy_node) (filter (arc_rule dummy_node) ?N)"
  have split: "arcs ?N = concat (map (\<lambda>origin. map (Pair origin) (filter (arc_rule origin) ?N)) ns) @ ?B"
    by (simp add: arcs_concat)
  have d: "dummy_node \<in> set ?N" by simp
  have "(dummy_node, successor (arcs ?N) x dummy_node) \<in> set ?B"
    using successor_props(2)[OF fn d] by (auto simp: mem_arcs)
  then have ne: "selected x ?B \<noteq> []"
    using successor_props(3)[OF fn d] by (auto simp: selected_def filter_empty_conv)
  then have "last (selected x ?B) \<in> set (selected x ?B)" by (rule last_in_set)
  then have "fst (last (selected x ?B)) = dummy_node"
    by (auto simp: selected_def)
  moreover have "selected x (arcs ?N) = selected x (concat (map (\<lambda>origin. map (Pair origin) (filter (arc_rule origin) ?N)) ns)) @ selected x ?B"
    by (simp only: split selected_def filter_append)
  ultimately show ?thesis
    using ne by (simp add: init_of_last)
qed

subsection \<open>Graph construction\<close>

text \<open>
  C8. Graph construction produces exactly one node per non-hole cell of the grid (the real
  nodes are exactly the cells within the bounds that are not holes, each once) plus
  exactly one dummy node, and the enumeration is row-major over the cells with the dummy
  node last.
\<close>

theorem nodes_one_per_cell_dummy_last:
  "set (real_nodes R C H) =
     {v. 1 \<le> row v \<and> row v \<le> R \<and> 1 \<le> col v \<and> col v \<le> C \<and> (row v, col v) \<notin> set H}
   \<and> sorted_wrt row_major (real_nodes R C H)
   \<and> nodes R C H = real_nodes R C H @ [dummy_node]
   \<and> dummy_node \<notin> set (real_nodes R C H)
   \<and> distinct (nodes R C H)"
  using set_real_nodes[of R C H] sorted_real_nodes[of R C H] dummy_not_real[of R C H]
    distinct_nodes[of R C H]
  by (simp only: nodes_def simp_thms)

theorem nodes_one_per_cell_dummy_last_witness:
  "nodes 2 2 [(1, 2)] =
     [\<lparr>row = 1, col = 1\<rparr>, \<lparr>row = 2, col = 1\<rparr>, \<lparr>row = 2, col = 2\<rparr>, dummy_node]
   \<and> distinct (nodes 2 2 [(1, 2)])"
  using nodes_one_per_cell_dummy_last [of 2 2 "[(1, 2)]"]
  by (simp add: nodes_def real_nodes_def upto.simps)

text \<open>
  C5. An arc (origin, destination) is created if and only if both are nodes and either
  exactly one of them is the dummy node, or both are real nodes whose cells are
  grid-adjacent: in the same row with column difference 1, or in the same column with row
  difference 1. Every arc is created once; each adjacent pair of real nodes yields the
  two directed arcs; the dummy node is connected to and from every real node.
\<close>

theorem arc_created_iff:
  "((origin, destination) \<in> set (arc_list (create_arcs (nodes R C H))) \<longleftrightarrow>
      origin \<in> set (nodes R C H) \<and> destination \<in> set (nodes R C H) \<and>
      (((origin = dummy_node) \<noteq> (destination = dummy_node)) \<or>
       (origin \<noteq> dummy_node \<and> destination \<noteq> dummy_node \<and>
        (row origin = row destination \<and> \<bar>col origin - col destination\<bar> = 1 \<or>
         col origin = col destination \<and> \<bar>row origin - row destination\<bar> = 1))))
   \<and> distinct (arc_list (create_arcs (nodes R C H)))
   \<and> (\<forall>u v. u \<in> set (real_nodes R C H) \<and> v \<in> set (real_nodes R C H) \<and>
          (row u = row v \<and> \<bar>col u - col v\<bar> = 1 \<or> col u = col v \<and> \<bar>row u - row v\<bar> = 1) \<longrightarrow>
          (u, v) \<in> set (arc_list (create_arcs (nodes R C H))) \<and>
          (v, u) \<in> set (arc_list (create_arcs (nodes R C H))))
   \<and> (\<forall>v. v \<in> set (real_nodes R C H) \<longrightarrow>
          (dummy_node, v) \<in> set (arc_list (create_arcs (nodes R C H))) \<and>
          (v, dummy_node) \<in> set (arc_list (create_arcs (nodes R C H))))"
proof -
  let ?A = "arc_list (create_arcs (nodes R C H))"
  have 1: "(origin, destination) \<in> set ?A \<longleftrightarrow>
      origin \<in> set (nodes R C H) \<and> destination \<in> set (nodes R C H) \<and>
      (((origin = dummy_node) \<noteq> (destination = dummy_node)) \<or>
       (origin \<noteq> dummy_node \<and> destination \<noteq> dummy_node \<and>
        (row origin = row destination \<and> \<bar>col origin - col destination\<bar> = 1 \<or>
         col origin = col destination \<and> \<bar>row origin - row destination\<bar> = 1)))"
    by (auto simp: arc_list_create_arcs mem_arcs arc_rule_def adjacent_def)
  have 2: "distinct ?A"
    by (simp add: arc_list_create_arcs distinct_arcs distinct_nodes)
  have 3: "\<forall>u v. u \<in> set (real_nodes R C H) \<and> v \<in> set (real_nodes R C H) \<and>
          (row u = row v \<and> \<bar>col u - col v\<bar> = 1 \<or> col u = col v \<and> \<bar>row u - row v\<bar> = 1) \<longrightarrow>
          (u, v) \<in> set ?A \<and> (v, u) \<in> set ?A"
    by (auto simp: arc_list_create_arcs mem_arcs arc_rule_def adjacent_def nodes_def)
  have 4: "\<forall>v. v \<in> set (real_nodes R C H) \<longrightarrow> (dummy_node, v) \<in> set ?A \<and> (v, dummy_node) \<in> set ?A"
    using dummy_not_real[of R C H]
    by (auto simp: arc_list_create_arcs mem_arcs arc_rule_def nodes_def)
  from 1 2 3 4 show ?thesis by blast
qed

lemma real_nodes_2_2:
  "real_nodes 2 2 [] =
     [\<lparr>row = 1, col = 1\<rparr>, \<lparr>row = 1, col = 2\<rparr>, \<lparr>row = 2, col = 1\<rparr>, \<lparr>row = 2, col = 2\<rparr>]"
  by (simp add: real_nodes_def upto.simps)

text \<open>
  On the 2 x 2 grid: the horizontal and the vertical neighbour of (1, 1) are joined to it
  in both directions, the diagonal cell (2, 2) is not, the dummy node is joined to and
  from (1, 1), and there is no arc from the dummy node to itself.
\<close>

theorem arc_created_iff_witness:
  "(\<lparr>row = 1, col = 1\<rparr>, \<lparr>row = 1, col = 2\<rparr>) \<in> set (arc_list (create_arcs (nodes 2 2 [])))
   \<and> (\<lparr>row = 1, col = 2\<rparr>, \<lparr>row = 1, col = 1\<rparr>) \<in> set (arc_list (create_arcs (nodes 2 2 [])))
   \<and> (\<lparr>row = 1, col = 1\<rparr>, \<lparr>row = 2, col = 1\<rparr>) \<in> set (arc_list (create_arcs (nodes 2 2 [])))
   \<and> (\<lparr>row = 2, col = 1\<rparr>, \<lparr>row = 1, col = 1\<rparr>) \<in> set (arc_list (create_arcs (nodes 2 2 [])))
   \<and> (\<lparr>row = 1, col = 1\<rparr>, \<lparr>row = 2, col = 2\<rparr>) \<notin> set (arc_list (create_arcs (nodes 2 2 [])))
   \<and> (dummy_node, \<lparr>row = 1, col = 1\<rparr>) \<in> set (arc_list (create_arcs (nodes 2 2 [])))
   \<and> (\<lparr>row = 1, col = 1\<rparr>, dummy_node) \<in> set (arc_list (create_arcs (nodes 2 2 [])))
   \<and> (dummy_node, dummy_node) \<notin> set (arc_list (create_arcs (nodes 2 2 [])))"
  using arc_created_iff [of dummy_node dummy_node 2 2 "[]"]
    arc_created_iff [of "\<lparr>row = 1, col = 1\<rparr>" "\<lparr>row = 2, col = 2\<rparr>" 2 2 "[]"]
    arc_created_iff [of "\<lparr>row = 1, col = 1\<rparr>" "\<lparr>row = 1, col = 2\<rparr>" 2 2 "[]"]
  by (simp add: real_nodes_2_2 nodes_def dummy_node_def)

text \<open>
  The claim C7, that a hole outside the bounds makes graph construction fail, does not
  hold: on the 1 x 1 grid with the hole (5, 5) construction returns the graph of the
  full grid.
\<close>

theorem out_of_bounds_hole_accepted_counterexample:
  "\<not> in_bounds 1 1 (5, 5) \<and>
   (case build_graph 1 1 [(5, 5)] of
      Inl e \<Rightarrow> False
    | Inr (N, g) \<Rightarrow> N = [\<lparr>row = 1, col = 1\<rparr>, dummy_node] \<and>
        arc_list g = [(\<lparr>row = 1, col = 1\<rparr>, dummy_node), (dummy_node, \<lparr>row = 1, col = 1\<rparr>)])"
  by (simp add: in_bounds_def build_graph_def arc_list_create_arcs arcs_def nodes_def
      real_nodes_def upto.simps arc_rule_def adjacent_def dummy_node_def)

lemma real_nodes_in_bounds: "real_nodes R C (filter (in_bounds R C) H) = real_nodes R C H"
proof -
  have "filter (\<lambda>p. p \<notin> set (filter (in_bounds R C) H)) (List.product [1..R] [1..C]) =
        filter (\<lambda>p. p \<notin> set H) (List.product [1..R] [1..C])"
    by (rule filter_cong) (auto simp: in_bounds_def)
  then show ?thesis by (simp add: real_nodes_product)
qed

text \<open>
  C7, amended. Graph construction never fails; holes outside the bounds of the grid are
  ignored: the graph is the one built from the holes that lie within the bounds.
\<close>

theorem out_of_bounds_holes_ignored:
  "build_graph R C H = Inr (nodes R C H, create_arcs (nodes R C H))
   \<and> build_graph R C H = build_graph R C (filter (in_bounds R C) H)"
  by (simp add: build_graph_def nodes_def real_nodes_in_bounds)

subsection \<open>The cycle through the dummy node\<close>

lemma funpow_mem: "f ` S \<subseteq> S \<Longrightarrow> d \<in> S \<Longrightarrow> (f ^^ i) d \<in> S"
  by (induction i) auto

lemma funpow_cancel:
  assumes into: "f ` S \<subseteq> S" and inj: "inj_on f S" and d: "d \<in> S"
  shows "(f ^^ i) d = (f ^^ (i + m)) d \<Longrightarrow> d = (f ^^ m) d"
proof (induction i)
  case 0
  then show ?case by simp
next
  case (Suc i)
  then have "f ((f ^^ i) d) = f ((f ^^ (i + m)) d)" by simp
  then have "(f ^^ i) d = (f ^^ (i + m)) d"
    using inj funpow_mem[OF into d] by (auto dest: inj_onD)
  then show ?case by (rule Suc.IH)
qed

lemma least_period:
  assumes fin: "finite S" and into: "f ` S \<subseteq> S" and inj: "inj_on f S" and d: "d \<in> S"
  shows "\<exists>k>0. (f ^^ k) d = d \<and> (\<forall>j. 0 < j \<and> j < k \<longrightarrow> (f ^^ j) d \<noteq> d)"
proof -
  let ?P = "\<lambda>k. 0 < k \<and> (f ^^ k) d = d"
  from funpow_returns[OF fin into inj d] have ex: "\<exists>k. ?P k" by blast
  have "?P (LEAST k. ?P k)" using ex by (rule LeastI_ex)
  moreover have "\<forall>j. 0 < j \<and> j < (LEAST k. ?P k) \<longrightarrow> (f ^^ j) d \<noteq> d"
    using not_less_Least[of _ ?P] by blast
  ultimately show ?thesis by blast
qed

lemma orbit_distinct:
  assumes into: "f ` S \<subseteq> S" and inj: "inj_on f S" and d: "d \<in> S"
    and least: "\<forall>j. 0 < j \<and> j < k \<longrightarrow> (f ^^ j) d \<noteq> d"
  shows "distinct (map (\<lambda>j. (f ^^ j) d) [0..<k])"
proof -
  have "inj_on (\<lambda>j. (f ^^ j) d) {0..<k}"
  proof (rule linorder_inj_onI)
    fix i j assume ij: "i < j" and "i \<in> {0..<k}" and j: "j \<in> {0..<k}"
    show "(f ^^ i) d \<noteq> (f ^^ j) d"
    proof
      assume "(f ^^ i) d = (f ^^ j) d"
      with ij have "(f ^^ i) d = (f ^^ (i + (j - i))) d" by simp
      then have "d = (f ^^ (j - i)) d" by (rule funpow_cancel[OF into inj d])
      moreover have "0 < j - i \<and> j - i < k" using ij j by auto
      ultimately show False using least by metis
    qed
  qed auto
  then show ?thesis by (simp add: distinct_map)
qed

lemma map_fst_cycle_arcs:
  "map fst (cycle_arcs f d k) = map (\<lambda>j. (f ^^ Suc j) d) [0..<k - 1] @ [d]"
  by (simp add: cycle_arcs_def comp_def)

lemma length_cycle_arcs: "0 < k \<Longrightarrow> length (cycle_arcs f d k) = k"
  by (simp add: cycle_arcs_def)

lemma set_fst_cycle_arcs:
  assumes "0 < k" "(f ^^ k) d = d"
  shows "fst ` set (cycle_arcs f d k) = (\<lambda>j. (f ^^ j) d) ` {0..<k}"
proof -
  have "fst ` set (cycle_arcs f d k) = set (map fst (cycle_arcs f d k))" by simp
  also have "\<dots> = (\<lambda>j. (f ^^ Suc j) d) ` {0..<k - 1} \<union> {d}"
    by (simp only: map_fst_cycle_arcs) auto
  also have "(\<lambda>j. (f ^^ Suc j) d) ` {0..<k - 1} = (\<lambda>j. (f ^^ j) d) ` {1..<k}"
  proof -
    have "(\<lambda>j. (f ^^ Suc j) d) ` {0..<k - 1} = (\<lambda>j. (f ^^ j) d) ` (Suc ` {0..<k - 1})"
      by (simp only: image_image)
    also have "Suc ` {0..<k - 1} = {1..<k}"
      using assms(1) by (cases k) (simp_all add: image_Suc_atLeastLessThan)
    finally show ?thesis .
  qed
  also have "(\<lambda>j. (f ^^ j) d) ` {1..<k} \<union> {d} = (\<lambda>j. (f ^^ j) d) ` {0..<k}"
  proof -
    have "{0..<k} = insert 0 {1..<k}" using assms(1) by auto
    then show ?thesis by auto
  qed
  finally show ?thesis .
qed

lemma distinct_fst_cycle_arcs:
  assumes into: "f ` S \<subseteq> S" and inj: "inj_on f S" and d: "d \<in> S"
    and k: "0 < k" "(f ^^ k) d = d"
    and least: "\<forall>j. 0 < j \<and> j < k \<longrightarrow> (f ^^ j) d \<noteq> d"
  shows "distinct (map fst (cycle_arcs f d k))"
proof -
  from orbit_distinct[OF into inj d least]
  have dist: "distinct (map (\<lambda>j. (f ^^ j) d) [0..<k])" .
  have "[0..<k] = 0 # map Suc [0..<k - 1]"
    using k(1) by (metis Suc_pred' map_Suc_upt upt_conv_Cons)
  then have "map (\<lambda>j. (f ^^ j) d) [0..<k] = d # map (\<lambda>j. (f ^^ Suc j) d) [0..<k - 1]"
    by (simp add: comp_def)
  with dist have "distinct (d # map (\<lambda>j. (f ^^ Suc j) d) [0..<k - 1])" by simp
  then show ?thesis by (simp only: map_fst_cycle_arcs) auto
qed

lemma dummy_in_nodes: "dummy_node \<in> set (nodes R C H)"
  by (simp add: nodes_def)

lemma successor_into:
  "functional N (arcs N) x \<Longrightarrow> successor (arcs N) x ` set N \<subseteq> set N"
  using successor_props(4) by blast

lemma walk_cycle:
  assumes k: "(f ^^ Suc (Suc m)) dummy_node = dummy_node"
    and least: "\<forall>j. 0 < j \<and> j < Suc (Suc m) \<longrightarrow> (f ^^ j) dummy_node \<noteq> dummy_node"
    and sol: "\<And>i. sol ((f ^^ i) dummy_node) = Some ((f ^^ Suc i) dummy_node)"
  shows "\<exists>ac. walk sol (f dummy_node) [] = Some (Inr ac) \<and> ac \<noteq> [] \<and>
           ac @ [(snd (last ac), fst (hd ac))] = cycle_arcs f dummy_node (Suc (Suc m))"
proof -
  let ?d = "dummy_node"
  let ?ac = "map (\<lambda>j. ((f ^^ Suc j) ?d, (f ^^ Suc (Suc j)) ?d)) [0..<Suc m]"
  have steps: "\<forall>j<Suc m. (f ^^ j) (f ?d) \<noteq> ?d \<and> sol ((f ^^ j) (f ?d)) = Some ((f ^^ Suc j) (f ?d))"
  proof (intro allI impI)
    fix j assume "j < Suc m"
    then have "0 < Suc j \<and> Suc j < Suc (Suc m)" by simp
    with least have "(f ^^ Suc j) ?d \<noteq> ?d" by blast
    moreover have "sol ((f ^^ Suc j) ?d) = Some ((f ^^ Suc (Suc j)) ?d)" by (rule sol)
    ultimately show "(f ^^ j) (f ?d) \<noteq> ?d \<and> sol ((f ^^ j) (f ?d)) = Some ((f ^^ Suc j) (f ?d))"
      by (simp add: funpow_swap1)
  qed
  have reach: "(f ^^ Suc m) (f ?d) = ?d"
    using k by (simp add: funpow_swap1)
  have "walk sol (f ?d) [] = Some (Inr ([] @ map (\<lambda>j. ((f ^^ j) (f ?d), (f ^^ Suc j) (f ?d))) [0..<Suc m]))"
    by (rule walk_reaches[OF steps reach])
  moreover have "map (\<lambda>j. ((f ^^ j) (f ?d), (f ^^ Suc j) (f ?d))) [0..<Suc m] = ?ac"
    by (simp add: funpow_swap1)
  ultimately have walk: "walk sol (f ?d) [] = Some (Inr ?ac)" by simp
  have len: "length ?ac = Suc m" by simp
  have ne: "?ac \<noteq> []" using len by auto
  have "hd ?ac = ?ac ! 0" by (rule hd_conv_nth[OF ne])
  also have "\<dots> = ((f ^^ Suc 0) ?d, (f ^^ Suc (Suc 0)) ?d)"
    by (subst nth_map) (simp_all del: funpow.simps upt_Suc)
  finally have hd: "fst (hd ?ac) = f ?d" by simp
  have "last ?ac = ?ac ! m" using last_conv_nth[OF ne] len by simp
  also have "\<dots> = ((f ^^ Suc m) ?d, (f ^^ Suc (Suc m)) ?d)"
    by (subst nth_map) (simp_all del: funpow.simps upt_Suc)
  finally have last: "snd (last ?ac) = ?d" using k by simp
  have "?ac @ [(snd (last ?ac), fst (hd ?ac))] = cycle_arcs f ?d (Suc (Suc m))"
    by (simp only: hd last cycle_arcs_def diff_Suc_1)
  with walk ne show ?thesis by blast
qed

lemma subtour_cycle:
  assumes fn: "functional (nodes R C H) (arcs (nodes R C H)) x"
  shows "\<exists>k. 2 \<le> k \<and> k \<le> length (nodes R C H) \<and>
           (successor (arcs (nodes R C H)) x ^^ k) dummy_node = dummy_node \<and>
           (\<forall>j. 0 < j \<and> j < k \<longrightarrow> (successor (arcs (nodes R C H)) x ^^ j) dummy_node \<noteq> dummy_node) \<and>
           subtour (arcs (nodes R C H)) x =
             Some (Inr (cycle_arcs (successor (arcs (nodes R C H)) x) dummy_node k))"
proof -
  define N where "N = nodes R C H"
  define A where "A = arcs N"
  define f where "f = successor A x"
  define sol where "sol = sol_of A x"
  note fn' = fn[folded N_def]
  have d: "dummy_node \<in> set N" unfolding N_def by (rule dummy_in_nodes)
  have into: "f ` set N \<subseteq> set N" unfolding f_def A_def by (rule successor_into[OF fn'])
  have inj: "inj_on f (set N)" unfolding f_def A_def by (rule successor_inj[OF fn'])
  have mem: "(f ^^ i) dummy_node \<in> set N" for i by (rule funpow_mem[OF into d])
  from least_period[OF _ into inj d] obtain k where
    k: "0 < k" "(f ^^ k) dummy_node = dummy_node"
    and least: "\<forall>j. 0 < j \<and> j < k \<longrightarrow> (f ^^ j) dummy_node \<noteq> dummy_node"
    by auto
  have "f dummy_node \<noteq> dummy_node"
    unfolding f_def A_def by (rule successor_props(5)[OF fn' d])
  then have "k \<noteq> Suc 0" using k(2) by auto
  with k(1) have "2 \<le> k" by simp
  then obtain m where "k = 2 + m" using nat_le_iff_add by blast
  then have km: "k = Suc (Suc m)" by simp
  have sol: "sol ((f ^^ i) dummy_node) = Some ((f ^^ Suc i) dummy_node)" for i
    using successor_props(1)[OF fn' mem[of i]] by (simp add: sol_def f_def A_def)
  from walk_cycle[where f=f and m=m and sol=sol, OF k(2)[unfolded km] least[unfolded km] sol]
  obtain ac where ac: "walk sol (f dummy_node) [] = Some (Inr ac)" "ac \<noteq> []"
    "ac @ [(snd (last ac), fst (hd ac))] = cycle_arcs f dummy_node k"
    unfolding km by blast
  have init: "init_of A x = Some dummy_node"
    unfolding A_def N_def nodes_def
    by (rule init_of_dummy) (use fn dummy_not_real in \<open>simp_all add: nodes_def\<close>)
  have sold: "sol dummy_node = Some (f dummy_node)"
    using sol[of 0] by simp
  have sub: "subtour A x = Some (Inr (cycle_arcs f dummy_node k))"
    unfolding subtour_def Let_def init sol_def[symmetric]
    by (simp only: sold ac option.case sum.case if_False)
  have "k \<le> length N"
  proof -
    have "distinct (map (\<lambda>j. (f ^^ j) dummy_node) [0..<k])"
      by (rule orbit_distinct[OF into inj d least])
    then have "card ((\<lambda>j. (f ^^ j) dummy_node) ` {0..<k}) = k"
      by (metis distinct_card length_map length_upt diff_zero list.set_map set_upt)
    moreover have "(\<lambda>j. (f ^^ j) dummy_node) ` {0..<k} \<subseteq> set N" using mem by auto
    ultimately have "k \<le> card (set N)" by (metis card_mono List.finite_set)
    then show ?thesis unfolding N_def by (simp add: distinct_card[OF distinct_nodes])
  qed
  moreover have "2 \<le> k" using km by simp
  ultimately show ?thesis
    using k(2) least sub unfolding f_def A_def N_def by blast
qed

subsection \<open>The decomposition into cycles\<close>

lemma funpow_period_mult: "(f ^^ k) d = d \<Longrightarrow> (f ^^ (q * k)) d = d"
  by (induction q) (simp_all add: funpow_add)

lemma funpow_period_mod:
  assumes "(f ^^ k) d = d"
  shows "(f ^^ i) d = (f ^^ (i mod k)) d"
proof -
  have "(f ^^ i) d = (f ^^ (i mod k + i div k * k)) d" by simp
  also have "\<dots> = (f ^^ (i mod k)) ((f ^^ (i div k * k)) d)"
    by (simp only: funpow_add comp_def)
  also have "\<dots> = (f ^^ (i mod k)) d"
    by (simp only: funpow_period_mult[OF assms])
  finally show ?thesis .
qed

lemma cycle_of_period:
  assumes k: "0 < k" "k \<le> length N" "(f ^^ k) d = d"
  shows "cycle_of N f d = (\<lambda>j. (f ^^ j) d) ` {0..<k}"
proof
  show "cycle_of N f d \<subseteq> (\<lambda>j. (f ^^ j) d) ` {0..<k}"
  proof
    fix v assume "v \<in> cycle_of N f d"
    then obtain i where "v = (f ^^ i) d" by (auto simp: cycle_of_def)
    then have "v = (f ^^ (i mod k)) d" using funpow_period_mod[OF k(3)] by simp
    moreover have "i mod k \<in> {0..<k}" using k(1) by simp
    ultimately show "v \<in> (\<lambda>j. (f ^^ j) d) ` {0..<k}" by blast
  qed
  show "(\<lambda>j. (f ^^ j) d) ` {0..<k} \<subseteq> cycle_of N f d"
    using k(2) by (auto simp: cycle_of_def)
qed

lemma card_orbit:
  assumes into: "f ` S \<subseteq> S" and inj: "inj_on f S" and d: "d \<in> S"
    and least: "\<forall>j. 0 < j \<and> j < k \<longrightarrow> (f ^^ j) d \<noteq> d"
  shows "card ((\<lambda>j. (f ^^ j) d) ` {0..<k}) = k"
proof -
  have "distinct (map (\<lambda>j. (f ^^ j) d) [0..<k])"
    by (rule orbit_distinct[OF into inj d least])
  then have "card (set (map (\<lambda>j. (f ^^ j) d) [0..<k])) = length (map (\<lambda>j. (f ^^ j) d) [0..<k])"
    by (rule distinct_card)
  then show ?thesis by simp
qed

lemma spanning_iff:
  assumes dist: "distinct N" and into: "f ` set N \<subseteq> set N" and inj: "inj_on f (set N)"
    and d: "d \<in> set N"
    and k: "0 < k" "k \<le> length N" "(f ^^ k) d = d"
    and least: "\<forall>j. 0 < j \<and> j < k \<longrightarrow> (f ^^ j) d \<noteq> d"
  shows "k = length N \<longleftrightarrow> decomposition N f = {set N}"
proof
  let ?O = "(\<lambda>j. (f ^^ j) d) ` {0..<k}"
  have cardO: "card ?O = k" by (rule card_orbit[OF into inj d least])
  have sub: "?O \<subseteq> set N" using funpow_mem[OF into d] by auto
  have cardN: "card (set N) = length N" by (rule distinct_card[OF dist])
  {
    assume kn: "k = length N"
    have O: "?O = set N"
      by (rule card_subset_eq) (use sub cardO cardN kn in simp_all)
    have "cycle_of N f v = set N" if v: "v \<in> set N" for v
    proof
      show "cycle_of N f v \<subseteq> set N"
        using funpow_mem[OF into v] by (auto simp: cycle_of_def)
      show "set N \<subseteq> cycle_of N f v"
      proof
        fix w assume "w \<in> set N"
        then have "w \<in> ?O" by (simp only: O)
        then obtain b where b: "b < k" "w = (f ^^ b) d" by (auto simp: image_iff)
        from v have "v \<in> ?O" by (simp only: O)
        then obtain a where a: "a < k" "v = (f ^^ a) d" by (auto simp: image_iff)
        let ?i = "if a \<le> b then b - a else k - a + b"
        have "(f ^^ ?i) v = (f ^^ (?i + a)) d"
          unfolding a(2) by (simp only: funpow_add comp_def)
        also have "\<dots> = (f ^^ ((?i + a) mod k)) d"
          by (rule funpow_period_mod[OF k(3)])
        also have "(?i + a) mod k = b"
        proof (cases "a \<le> b")
          case True
          then show ?thesis using b(1) by simp
        next
          case False
          then have "?i + a = b + k" using a(1) by simp
          then show ?thesis using b(1) by simp
        qed
        finally have "(f ^^ ?i) v = w" using b(2) by simp
        moreover have "?i < length N" using a(1) b(1) kn by auto
        ultimately show "w \<in> cycle_of N f v"
          unfolding cycle_of_def by blast
      qed
    qed
    then show "decomposition N f = {set N}"
      using d unfolding decomposition_def by auto
  }
  {
    assume "decomposition N f = {set N}"
    then have "cycle_of N f d = set N"
      using d unfolding decomposition_def by blast
    then have "?O = set N" using cycle_of_period[OF k] by simp
    then show "k = length N" using cardO cardN by simp
  }
qed

lemma snd_cycle_arcs:
  assumes "(f ^^ Suc (Suc m)) d = d"
  shows "map snd (cycle_arcs f d (Suc (Suc m))) = rotate1 (map fst (cycle_arcs f d (Suc (Suc m))))"
proof -
  have "map fst (cycle_arcs f d (Suc (Suc m))) =
        f d # map (\<lambda>j. (f ^^ Suc (Suc j)) d) [0..<m] @ [d]"
    by (simp add: cycle_arcs_def comp_def map_upt_Suc del: upt_Suc funpow.simps) simp
  moreover have "map snd (cycle_arcs f d (Suc (Suc m))) =
        map (\<lambda>j. (f ^^ Suc (Suc j)) d) [0..<m] @ [(f ^^ Suc (Suc m)) d] @ [f d]"
    by (simp add: cycle_arcs_def comp_def del: funpow.simps)
  ultimately show ?thesis using assms by simp
qed

lemma cycle_arcs_mem:
  "a \<in> set (cycle_arcs f d k) \<Longrightarrow> \<exists>i. a = ((f ^^ i) d, (f ^^ Suc i) d)"
proof -
  assume "a \<in> set (cycle_arcs f d k)"
  then consider j where "a = ((f ^^ Suc j) d, (f ^^ Suc (Suc j)) d)" | "a = (d, f d)"
    by (auto simp: cycle_arcs_def)
  then show ?thesis
  proof cases
    case 1
    then show ?thesis by blast
  next
    case 2
    then have "a = ((f ^^ 0) d, (f ^^ Suc 0) d)" by simp
    then show ?thesis by blast
  qed
qed

subsection \<open>What subtour returns on a functional successor mapping\<close>

lemma subtour_functional:
  assumes fn: "functional (nodes R C H) (arcs (nodes R C H)) x"
  shows "\<exists>tour. subtour (arcs (nodes R C H)) x = Some (Inr tour) \<and>
           2 \<le> length tour \<and> length tour \<le> length (nodes R C H) \<and>
           set tour \<subseteq> set (selected x (arcs (nodes R C H))) \<and>
           distinct (map fst tour) \<and>
           map snd tour = rotate1 (map fst tour) \<and>
           last (map fst tour) = dummy_node \<and>
           fst ` set tour = cycle_of (nodes R C H) (successor (arcs (nodes R C H)) x) dummy_node \<and>
           (length tour = length (nodes R C H) \<longleftrightarrow>
              decomposition (nodes R C H) (successor (arcs (nodes R C H)) x) = {set (nodes R C H)})"
proof -
  define N where "N = nodes R C H"
  define f where "f = successor (arcs N) x"
  note fn' = fn[folded N_def]
  have d: "dummy_node \<in> set N" unfolding N_def by (rule dummy_in_nodes)
  have into: "f ` set N \<subseteq> set N" unfolding f_def by (rule successor_into[OF fn'])
  have inj: "inj_on f (set N)" unfolding f_def by (rule successor_inj[OF fn'])
  have dist: "distinct N" unfolding N_def by (rule distinct_nodes)
  from subtour_cycle[OF fn] obtain k where
    k2: "2 \<le> k" and kn: "k \<le> length N" and per: "(f ^^ k) dummy_node = dummy_node"
    and least: "\<forall>j. 0 < j \<and> j < k \<longrightarrow> (f ^^ j) dummy_node \<noteq> dummy_node"
    and sub: "subtour (arcs N) x = Some (Inr (cycle_arcs f dummy_node k))"
    unfolding N_def f_def by blast
  let ?tour = "cycle_arcs f dummy_node k"
  have k0: "0 < k" using k2 by simp
  from k2 obtain m where "k = 2 + m" using nat_le_iff_add by blast
  then have km: "k = Suc (Suc m)" by simp
  have len: "length ?tour = k" by (rule length_cycle_arcs[OF k0])
  have sel: "set ?tour \<subseteq> set (selected x (arcs N))"
  proof
    fix a assume "a \<in> set ?tour"
    then obtain i where a: "a = ((f ^^ i) dummy_node, (f ^^ Suc i) dummy_node)"
      using cycle_arcs_mem by blast
    have "(f ^^ i) dummy_node \<in> set N" by (rule funpow_mem[OF into d])
    from successor_props(2,3)[OF fn' this] show "a \<in> set (selected x (arcs N))"
      unfolding a by (simp add: selected_def f_def)
  qed
  have distinct: "distinct (map fst ?tour)"
    by (rule distinct_fst_cycle_arcs[OF into inj d k0 per least])
  have rot: "map snd ?tour = rotate1 (map fst ?tour)"
    unfolding km by (rule snd_cycle_arcs[OF per[unfolded km]])
  have last: "last (map fst ?tour) = dummy_node"
    by (simp only: map_fst_cycle_arcs last_snoc)
  have cyc: "fst ` set ?tour = cycle_of N f dummy_node"
    by (simp only: set_fst_cycle_arcs[OF k0 per] cycle_of_period[OF k0 kn per])
  have span: "length ?tour = length N \<longleftrightarrow> decomposition N f = {set N}"
    unfolding len by (rule spanning_iff[OF dist into inj d k0 kn per least])
  from sub k2 kn sel distinct rot last cyc span len
  have "\<exists>tour. subtour (arcs N) x = Some (Inr tour) \<and>
           2 \<le> length tour \<and> length tour \<le> length N \<and>
           set tour \<subseteq> set (selected x (arcs N)) \<and>
           distinct (map fst tour) \<and>
           map snd tour = rotate1 (map fst tour) \<and>
           last (map fst tour) = dummy_node \<and>
           fst ` set tour = cycle_of N f dummy_node \<and>
           (length tour = length N \<longleftrightarrow> decomposition N f = {set N})"
    by (intro exI[of _ ?tour]) simp
  then show ?thesis unfolding f_def N_def .
qed

lemma sum_list_binary:
  "\<forall>a\<in>set xs. x a = 0 \<or> x a = 1 \<Longrightarrow> sum_list (map x xs) = int (length (filter (\<lambda>a. x a = 1) xs))"
  for x :: "'a \<Rightarrow> int"
  by (induction xs) auto

lemma mem_degree_constraints:
  "v \<in> set N \<Longrightarrow>
     \<lparr>lhs = ongoing_arcs g v, sense = EQ, rhs = 1\<rparr> \<in> set (degree_constraints N g) \<and>
     \<lparr>lhs = incoming_arcs g v, sense = EQ, rhs = 1\<rparr> \<in> set (degree_constraints N g)"
  by (auto simp: degree_constraints_def)

lemma degree_functional:
  assumes bin: "binary x (variables (formulate N (create_arcs N)))"
    and sat: "list_all (satisfies x) (constraints (formulate N (create_arcs N)))"
  shows "functional N (arcs N) x"
proof -
  have bin': "\<forall>a\<in>set (arcs N). x a = 0 \<or> x a = 1"
    using bin by (simp add: binary_def formulate_def arc_list_create_arcs list_all_iff)
  have one: "length (filter P (selected x (arcs N))) = 1"
    if c: "\<lparr>lhs = filter P (arcs N), sense = EQ, rhs = 1\<rparr> \<in> set (degree_constraints N (create_arcs N))"
    for P
  proof -
    from sat c have "satisfies x \<lparr>lhs = filter P (arcs N), sense = EQ, rhs = 1\<rparr>"
      by (simp add: formulate_def list_all_iff)
    then have "sum_list (map x (filter P (arcs N))) = 1"
      by (simp add: satisfies_def)
    moreover have "sum_list (map x (filter P (arcs N))) =
        int (length (filter (\<lambda>a. x a = 1) (filter P (arcs N))))"
      by (rule sum_list_binary) (use bin' in auto)
    moreover have "filter (\<lambda>a. x a = 1) (filter P (arcs N)) = filter P (selected x (arcs N))"
      by (auto simp: selected_def intro: filter_cong)
    ultimately show ?thesis by simp
  qed
  show ?thesis
    unfolding functional_def list_all_iff
  proof (intro ballI conjI)
    fix v assume v: "v \<in> set N"
    from mem_degree_constraints[OF v, of "create_arcs N"]
    have c1: "\<lparr>lhs = filter (\<lambda>a. fst a = v) (arcs N), sense = EQ, rhs = 1\<rparr>
                \<in> set (degree_constraints N (create_arcs N))"
      and c2: "\<lparr>lhs = filter (\<lambda>a. snd a = v) (arcs N), sense = EQ, rhs = 1\<rparr>
                \<in> set (degree_constraints N (create_arcs N))"
      by (simp_all add: ongoing_arcs_create_arcs incoming_arcs_create_arcs)
    show "length (filter (\<lambda>a. fst a = v) (selected x (arcs N))) = 1"
      by (rule one[OF c1])
    show "length (filter (\<lambda>a. snd a = v) (selected x (arcs N))) = 1"
      by (rule one[OF c2])
  qed
qed

lemma init_of_nodes:
  assumes fn: "functional (nodes R C H) (arcs (nodes R C H)) x"
  shows "init_of (arcs (nodes R C H)) x = Some dummy_node"
  unfolding nodes_def
  by (rule init_of_dummy) (use fn dummy_not_real in \<open>simp_all add: nodes_def\<close>)

lemma subtour_length:
  assumes "subtour A x = Some (Inr tour)"
  shows "2 \<le> length tour"
proof -
  from assms obtain arc_cycle where "arc_cycle \<noteq> []"
    and "tour = arc_cycle @ [(snd (last arc_cycle), fst (hd arc_cycle))]"
    by (auto simp: subtour_def Let_def split: option.splits sum.splits if_splits)
  then show ?thesis by (cases arc_cycle) simp_all
qed

lemma no_self_arc: "a \<in> set (arcs N) \<Longrightarrow> fst a \<noteq> snd a"
  using arc_rule_irrefl by (cases a) (auto simp: mem_arcs)

lemma selected_subset: "set (selected x A) \<subseteq> set A"
  by (auto simp: selected_def)

lemma fst_selected_nodes:
  "set tour \<subseteq> set (selected x (arcs N)) \<Longrightarrow> fst ` set tour \<subseteq> set N"
  by (auto simp: selected_def mem_arcs)

subsection \<open>The subtour routine\<close>

text \<open>
  C10. For every assignment of binary values that satisfies the registered degree
  constraints, the linear scan sets the start of the traversal to the dummy node, and
  the subtour routine of the iterative variants terminates and returns the cycle that
  contains the dummy node: a closed chain of selected arcs (the destination of each arc is
  the origin of the next, the last leads back to the first) that visits no node twice.
\<close>

theorem subtour_returns_dummy_cycle:
  assumes "binary x (variables (formulate (nodes R C H) (create_arcs (nodes R C H))))"
    and "list_all (satisfies x) (constraints (formulate (nodes R C H) (create_arcs (nodes R C H))))"
  shows "init_of (arc_list (create_arcs (nodes R C H))) x = Some dummy_node \<and>
    (\<exists>tour. subtour (arc_list (create_arcs (nodes R C H))) x = Some (Inr tour) \<and>
       set tour \<subseteq> set (selected x (arc_list (create_arcs (nodes R C H)))) \<and>
       distinct (map fst tour) \<and>
       dummy_node \<in> set (map fst tour) \<and>
       map snd tour = rotate1 (map fst tour))"
proof -
  have fn: "functional (nodes R C H) (arcs (nodes R C H)) x"
    by (rule degree_functional[OF assms])
  from subtour_functional[OF fn] obtain tour where
    t: "subtour (arcs (nodes R C H)) x = Some (Inr tour)" "2 \<le> length tour"
      "set tour \<subseteq> set (selected x (arcs (nodes R C H)))" "distinct (map fst tour)"
      "map snd tour = rotate1 (map fst tour)" "last (map fst tour) = dummy_node"
    by blast
  from t(2) have "map fst tour \<noteq> []" by auto
  then have "last (map fst tour) \<in> set (map fst tour)" by (rule last_in_set)
  with t(6) have "dummy_node \<in> set (map fst tour)" by simp
  with t init_of_nodes[OF fn] show ?thesis
    unfolding arc_list_create_arcs by blast
qed

theorem subtour_returns_dummy_cycle_witness:
  "init_of (arc_list (create_arcs (nodes 1 2 []))) one_cycle = Some dummy_node \<and>
   (\<exists>tour. subtour (arc_list (create_arcs (nodes 1 2 []))) one_cycle = Some (Inr tour) \<and>
      set tour \<subseteq> set (selected one_cycle (arc_list (create_arcs (nodes 1 2 [])))) \<and>
      distinct (map fst tour) \<and>
      dummy_node \<in> set (map fst tour) \<and>
      map snd tour = rotate1 (map fst tour))"
proof -
  have b: "binary one_cycle (variables (formulate (nodes 1 2 []) (create_arcs (nodes 1 2 []))))"
    by code_simp
  have s: "list_all (satisfies one_cycle)
      (constraints (formulate (nodes 1 2 []) (create_arcs (nodes 1 2 []))))"
    by code_simp
  show ?thesis by (rule subtour_returns_dummy_cycle[OF b s])
qed

text \<open>
  The claim C1, that the routine returns the complete set of disjoint cycles, does not
  hold: on the 1 x 3 grid with the two cycles above, which is a functional successor
  mapping, it returns the single cycle through (1, 3) and the dummy node; the nodes
  (1, 1) and (1, 2) are in no returned cycle.
\<close>

theorem subtour_all_cycles_counterexample:
  "functional (nodes 1 3 []) (arc_list (create_arcs (nodes 1 3 []))) two_cycles \<and>
   subtour (arc_list (create_arcs (nodes 1 3 []))) two_cycles =
     Some (Inr [(\<lparr>row = 1, col = 3\<rparr>, dummy_node), (dummy_node, \<lparr>row = 1, col = 3\<rparr>)]) \<and>
   \<lparr>row = 1, col = 1\<rparr> \<in> set (nodes 1 3 []) \<and>
   \<lparr>row = 1, col = 1\<rparr> \<notin>
     fst ` set [(\<lparr>row = 1, col = 3\<rparr>, dummy_node), (dummy_node, \<lparr>row = 1, col = 3\<rparr>)]"
proof -
  have "functional (nodes 1 3 []) (arcs (nodes 1 3 [])) two_cycles"
    by code_simp
  moreover have "subtour (arcs (nodes 1 3 [])) two_cycles =
     Some (Inr [(\<lparr>row = 1, col = 3\<rparr>, dummy_node), (dummy_node, \<lparr>row = 1, col = 3\<rparr>)])"
    by code_simp
  moreover have "\<lparr>row = 1, col = 1\<rparr> \<in> set (nodes 1 3 [])"
    by code_simp
  moreover have "\<lparr>row = 1, col = 1\<rparr> \<notin>
     fst ` set [(\<lparr>row = 1, col = 3\<rparr>, dummy_node), (dummy_node, \<lparr>row = 1, col = 3\<rparr>)]"
    by (simp add: dummy_node_def)
  ultimately show ?thesis
    unfolding arc_list_create_arcs by blast
qed

text \<open>
  C1, amended. For every candidate solution whose selected arcs form a functional
  successor mapping, the routine returns one cycle only: the cycle of the successor
  mapping that contains the dummy node, as a closed chain of selected arcs that visits no
  node twice. Its node set is the full node set exactly when the decomposition of the
  mapping consists of that single cycle.
\<close>

theorem subtour_returns_one_cycle:
  assumes "functional (nodes R C H) (arc_list (create_arcs (nodes R C H))) x"
  shows "\<exists>tour. subtour (arc_list (create_arcs (nodes R C H))) x = Some (Inr tour) \<and>
    set tour \<subseteq> set (selected x (arc_list (create_arcs (nodes R C H)))) \<and>
    distinct (map fst tour) \<and>
    map snd tour = rotate1 (map fst tour) \<and>
    fst ` set tour =
      cycle_of (nodes R C H) (successor (arc_list (create_arcs (nodes R C H))) x) dummy_node \<and>
    fst ` set tour \<subseteq> set (nodes R C H) \<and>
    (fst ` set tour = set (nodes R C H) \<longleftrightarrow>
       decomposition (nodes R C H) (successor (arc_list (create_arcs (nodes R C H))) x) =
         {set (nodes R C H)})"
proof -
  let ?N = "nodes R C H"
  have fn: "functional ?N (arcs ?N) x"
    using assms by (simp only: arc_list_create_arcs)
  from subtour_functional[OF fn] obtain tour where
    t: "subtour (arcs ?N) x = Some (Inr tour)"
      "set tour \<subseteq> set (selected x (arcs ?N))" "distinct (map fst tour)"
      "map snd tour = rotate1 (map fst tour)"
      "fst ` set tour = cycle_of ?N (successor (arcs ?N) x) dummy_node"
      "length tour = length ?N \<longleftrightarrow> decomposition ?N (successor (arcs ?N) x) = {set ?N}"
    by blast
  have sub: "fst ` set tour \<subseteq> set ?N" by (rule fst_selected_nodes[OF t(2)])
  have "card (fst ` set tour) = length tour"
    using distinct_card[OF t(3)] by simp
  moreover have "card (set ?N) = length ?N" by (rule distinct_card[OF distinct_nodes])
  ultimately have "fst ` set tour = set ?N \<longleftrightarrow> length tour = length ?N"
    using sub card_subset_eq[OF _ sub] by auto
  with t sub show ?thesis
    unfolding arc_list_create_arcs by blast
qed

theorem subtour_returns_one_cycle_witness:
  "\<exists>tour. subtour (arc_list (create_arcs (nodes 1 3 []))) two_cycles = Some (Inr tour) \<and>
    set tour \<subseteq> set (selected two_cycles (arc_list (create_arcs (nodes 1 3 [])))) \<and>
    distinct (map fst tour) \<and>
    map snd tour = rotate1 (map fst tour) \<and>
    fst ` set tour =
      cycle_of (nodes 1 3 []) (successor (arc_list (create_arcs (nodes 1 3 []))) two_cycles)
        dummy_node \<and>
    fst ` set tour \<subseteq> set (nodes 1 3 []) \<and>
    (fst ` set tour = set (nodes 1 3 [])) =
      (decomposition (nodes 1 3 []) (successor (arc_list (create_arcs (nodes 1 3 []))) two_cycles) =
         {set (nodes 1 3 [])})"
proof -
  have "functional (nodes 1 3 []) (arcs (nodes 1 3 [])) two_cycles"
    by code_simp
  then have "functional (nodes 1 3 []) (arc_list (create_arcs (nodes 1 3 []))) two_cycles"
    by (simp only: arc_list_create_arcs)
  then show ?thesis by (rule subtour_returns_one_cycle)
qed

text \<open>
  C6. No arc connects a node to itself, and every cycle the subtour routine returns has
  length at least 2; on a functional successor mapping it does return one.
\<close>

theorem no_self_arc_cycle_length:
  "(\<forall>a \<in> set (arc_list (create_arcs (nodes R C H))). fst a \<noteq> snd a) \<and>
   (\<forall>tour. subtour (arc_list (create_arcs (nodes R C H))) x = Some (Inr tour) \<longrightarrow> 2 \<le> length tour) \<and>
   (functional (nodes R C H) (arc_list (create_arcs (nodes R C H))) x \<longrightarrow>
      (\<exists>tour. subtour (arc_list (create_arcs (nodes R C H))) x = Some (Inr tour) \<and> 2 \<le> length tour))"
proof (intro conjI ballI allI impI)
  fix a assume "a \<in> set (arc_list (create_arcs (nodes R C H)))"
  then show "fst a \<noteq> snd a"
    unfolding arc_list_create_arcs by (rule no_self_arc)
next
  fix tour assume "subtour (arc_list (create_arcs (nodes R C H))) x = Some (Inr tour)"
  then show "2 \<le> length tour" by (rule subtour_length)
next
  assume "functional (nodes R C H) (arc_list (create_arcs (nodes R C H))) x"
  then have "functional (nodes R C H) (arcs (nodes R C H)) x"
    by (simp only: arc_list_create_arcs)
  from subtour_functional[OF this]
  show "\<exists>tour. subtour (arc_list (create_arcs (nodes R C H))) x = Some (Inr tour) \<and> 2 \<le> length tour"
    unfolding arc_list_create_arcs by blast
qed

theorem no_self_arc_cycle_length_witness:
  "(dummy_node, dummy_node) \<notin> set (arc_list (create_arcs (nodes 1 2 []))) \<and>
   (\<lparr>row = 1, col = 1\<rparr>, \<lparr>row = 1, col = 1\<rparr>) \<notin> set (arc_list (create_arcs (nodes 1 2 []))) \<and>
   (\<exists>tour. subtour (arc_list (create_arcs (nodes 1 2 []))) one_cycle = Some (Inr tour) \<and>
      2 \<le> length tour)"
proof -
  have "functional (nodes 1 2 []) (arcs (nodes 1 2 [])) one_cycle"
    by code_simp
  then have "functional (nodes 1 2 []) (arc_list (create_arcs (nodes 1 2 []))) one_cycle"
    by (simp only: arc_list_create_arcs)
  with no_self_arc_cycle_length[of 1 2 "[]" one_cycle] show ?thesis
    by force
qed

subsection \<open>The degree formulation\<close>

lemma concat_pairs_nth:
  "k < length xs \<Longrightarrow>
     concat (map (\<lambda>v. [f v, h v]) xs) ! (2 * k) = f (xs ! k) \<and>
     concat (map (\<lambda>v. [f v, h v]) xs) ! (2 * k + 1) = h (xs ! k)"
proof (induction xs arbitrary: k)
  case Nil
  then show ?case by simp
next
  case (Cons a xs)
  show ?case
  proof (cases k)
    case 0
    then show ?thesis by simp
  next
    case (Suc j)
    with Cons.prems have "j < length xs" by simp
    from Cons.IH[OF this] show ?thesis using Suc by simp
  qed
qed

lemma length_concat_pairs: "length (concat (map (\<lambda>v. [f v, h v]) xs)) = 2 * length xs"
  by (induction xs) simp_all

text \<open>
  C9. The degree formulation registers one boolean variable per arc (the variables are the
  arcs, each once) and, for every node in the order of the node list, the dummy node
  included, exactly two constraints: the sum of the variables of the arcs that leave the
  node equals 1, and the sum of the variables of the arcs that enter the node equals 1.
\<close>

theorem degree_formulation:
  "variables (formulate (nodes R C H) (create_arcs (nodes R C H))) =
     arc_list (create_arcs (nodes R C H)) \<and>
   distinct (variables (formulate (nodes R C H) (create_arcs (nodes R C H)))) \<and>
   length (constraints (formulate (nodes R C H) (create_arcs (nodes R C H)))) =
     2 * length (nodes R C H) \<and>
   (k < length (nodes R C H) \<longrightarrow>
      constraints (formulate (nodes R C H) (create_arcs (nodes R C H))) ! (2 * k) =
        \<lparr>lhs = filter (\<lambda>a. fst a = nodes R C H ! k) (arc_list (create_arcs (nodes R C H))),
         sense = EQ, rhs = 1\<rparr> \<and>
      constraints (formulate (nodes R C H) (create_arcs (nodes R C H))) ! (2 * k + 1) =
        \<lparr>lhs = filter (\<lambda>a. snd a = nodes R C H ! k) (arc_list (create_arcs (nodes R C H))),
         sense = EQ, rhs = 1\<rparr>)"
proof (intro conjI impI)
  show "variables (formulate (nodes R C H) (create_arcs (nodes R C H))) =
     arc_list (create_arcs (nodes R C H))"
    by (simp add: formulate_def)
  show "distinct (variables (formulate (nodes R C H) (create_arcs (nodes R C H))))"
    by (simp add: formulate_def arc_list_create_arcs distinct_arcs distinct_nodes)
  show "length (constraints (formulate (nodes R C H) (create_arcs (nodes R C H)))) =
     2 * length (nodes R C H)"
    by (simp add: formulate_def degree_constraints_def length_concat_pairs)
next
  assume k: "k < length (nodes R C H)"
  let ?g = "create_arcs (nodes R C H)"
  let ?out = "\<lambda>node. \<lparr>lhs = ongoing_arcs ?g node, sense = EQ, rhs = 1\<rparr>"
  let ?in = "\<lambda>node. \<lparr>lhs = incoming_arcs ?g node, sense = EQ, rhs = 1\<rparr>"
  have cs: "constraints (formulate (nodes R C H) ?g) =
      concat (map (\<lambda>node. [?out node, ?in node]) (nodes R C H))"
    by (simp add: formulate_def degree_constraints_def)
  from concat_pairs_nth[OF k, where f = ?out and h = ?in]
  show "constraints (formulate (nodes R C H) (create_arcs (nodes R C H))) ! (2 * k) =
        \<lparr>lhs = filter (\<lambda>a. fst a = nodes R C H ! k) (arc_list (create_arcs (nodes R C H))),
         sense = EQ, rhs = 1\<rparr>"
    and "constraints (formulate (nodes R C H) (create_arcs (nodes R C H))) ! (2 * k + 1) =
        \<lparr>lhs = filter (\<lambda>a. snd a = nodes R C H ! k) (arc_list (create_arcs (nodes R C H))),
         sense = EQ, rhs = 1\<rparr>"
    unfolding cs by (simp_all add: ongoing_arcs_create_arcs incoming_arcs_create_arcs
        arc_list_create_arcs)
qed

text \<open>
  On the 1 x 1 grid the node list is the cell (1, 1) and the dummy node; the four
  constraints are the out- and in-degree constraints of the cell, then of the dummy node.
\<close>

theorem degree_formulation_witness:
  "length (constraints (formulate (nodes 1 1 []) (create_arcs (nodes 1 1 [])))) = 4 \<and>
   constraints (formulate (nodes 1 1 []) (create_arcs (nodes 1 1 []))) ! 0 =
     \<lparr>lhs = [(\<lparr>row = 1, col = 1\<rparr>, dummy_node)], sense = EQ, rhs = 1\<rparr> \<and>
   constraints (formulate (nodes 1 1 []) (create_arcs (nodes 1 1 []))) ! 1 =
     \<lparr>lhs = [(dummy_node, \<lparr>row = 1, col = 1\<rparr>)], sense = EQ, rhs = 1\<rparr> \<and>
   constraints (formulate (nodes 1 1 []) (create_arcs (nodes 1 1 []))) ! 2 =
     \<lparr>lhs = [(dummy_node, \<lparr>row = 1, col = 1\<rparr>)], sense = EQ, rhs = 1\<rparr> \<and>
   constraints (formulate (nodes 1 1 []) (create_arcs (nodes 1 1 []))) ! 3 =
     \<lparr>lhs = [(\<lparr>row = 1, col = 1\<rparr>, dummy_node)], sense = EQ, rhs = 1\<rparr>"
  using degree_formulation[of 1 1 "[]" 0] degree_formulation[of 1 1 "[]" 1]
  by (simp add: nodes_def real_nodes_def upto.simps arc_list_create_arcs arcs_def
      arc_rule_def adjacent_def dummy_node_def)

subsection \<open>The callback of the first Gurobi variant registers nothing\<close>

lemma select_Index: "select edges (Index k) = []"
  by (auto simp: select_def filter_empty_conv)

lemma visit_Index:
  "visit edges (Index k # rest) [] (Index k # rest) = Some (Inr ([Index k], rest))"
  by (subst visit.simps, simp add: select_Index, subst visit.simps, simp)

lemma find_cycle_short:
  "length cycle \<le> 1 \<Longrightarrow> find_cycle edges (map Index [k..<n]) cycle = Some (Inr cycle)"
proof (induction "n - k" arbitrary: k)
  case 0
  then show ?case by (subst find_cycle.simps) simp
next
  case (Suc m)
  then have kn: "k < n" and m: "m = n - Suc k" by simp_all
  from kn have upt: "map Index [k..<n] = Index k # map Index [Suc k..<n]"
    by (simp add: upt_conv_Cons)
  show ?case
    using Suc.hyps(1)[OF m Suc.prems] Suc.prems
    by (subst find_cycle.simps) (simp add: upt visit_Index)
qed

lemma find_cycle_Index:
  assumes "0 < n"
  shows "find_cycle edges (map Index [0..<n]) (map Index [0..<n + 1]) = Some (Inr [Index 0])"
proof -
  from assms have upt: "map Index [0..<n] = Index 0 # map Index [Suc 0..<n]"
    by (simp add: upt_conv_Cons)
  have "find_cycle edges (map Index [Suc 0..<n]) [Index 0] = Some (Inr [Index 0])"
    by (rule find_cycle_short) simp
  then show ?thesis
    using assms by (subst find_cycle.simps) (simp add: upt visit_Index del: upt_Suc)
qed

lemma subtour_dfj_grb_Index:
  "0 < n \<Longrightarrow> subtour_dfj_grb n edges = Some (Inr [(Index 0, Index 0)])"
  using find_cycle_Index[of n edges] by (simp add: subtour_dfj_grb_def del: upt_Suc)

lemma subtourelim_registers_nothing:
  "0 < n \<Longrightarrow> subtourelim n A vals = Some (Inr None)"
  by (simp add: subtourelim_def subtour_dfj_grb_Index)

subsection \<open>Elimination constraints\<close>

lemma permutations2_product:
  "permutations2 xs =
     map (\<lambda>(i, j). (xs ! i, xs ! j))
       (filter (\<lambda>(i, j). i \<noteq> j) (List.product [0..<length xs] [0..<length xs]))"
proof -
  have "concat (map (\<lambda>i. map (\<lambda>j. (xs ! i, xs ! j)) (filter (\<lambda>j. i \<noteq> j) js)) is) =
        map (\<lambda>(i, j). (xs ! i, xs ! j)) (filter (\<lambda>(i, j). i \<noteq> j) (List.product is js))"
    for "is" js :: "nat list"
    by (induction "is") (simp_all add: filter_map comp_def)
  then show ?thesis
    by (simp add: permutations2_def concat_map_if)
qed

lemma set_permutations2:
  "set (permutations2 xs) = {(xs ! i, xs ! j) | i j. i < length xs \<and> j < length xs \<and> i \<noteq> j}"
  by (auto simp: permutations2_product image_iff) blast

lemma distinct_permutations2:
  assumes "distinct xs"
  shows "distinct (permutations2 xs)"
proof -
  have "inj_on (\<lambda>(i, j). (xs ! i, xs ! j))
      (set (filter (\<lambda>(i, j). i \<noteq> j) (List.product [0..<length xs] [0..<length xs])))"
    using assms by (auto simp: inj_on_def nth_eq_iff_index_eq)
  then show ?thesis
    by (simp add: permutations2_product distinct_map distinct_product)
qed

lemma set_lhs_elimination_constraint:
  "set (lhs (elimination_constraint (arcs N) tour)) =
     {a \<in> set (arcs N). fst a \<in> fst ` set tour \<and> snd a \<in> fst ` set tour}"
proof -
  let ?ns = "map fst tour"
  have "a \<in> set (permutations2 ?ns) \<longleftrightarrow> fst a \<in> set ?ns \<and> snd a \<in> set ?ns"
    if a: "a \<in> set (arcs N)" for a
  proof
    assume "a \<in> set (permutations2 ?ns)"
    then obtain i j where "i < length ?ns" "j < length ?ns" "a = (?ns ! i, ?ns ! j)"
      unfolding set_permutations2 by blast
    then show "fst a \<in> set ?ns \<and> snd a \<in> set ?ns"
      using nth_mem[of i ?ns] nth_mem[of j ?ns] by simp
  next
    assume "fst a \<in> set ?ns \<and> snd a \<in> set ?ns"
    then obtain i j where ij: "i < length ?ns" "?ns ! i = fst a" "j < length ?ns" "?ns ! j = snd a"
      unfolding in_set_conv_nth by blast
    moreover have "i \<noteq> j" using no_self_arc[OF a] ij by auto
    ultimately have "(fst a, snd a) = (?ns ! i, ?ns ! j) \<and> i < length ?ns \<and> j < length ?ns \<and> i \<noteq> j"
      by simp
    then have "(fst a, snd a) \<in> set (permutations2 ?ns)"
      unfolding set_permutations2 by (intro CollectI exI[of _ i] exI[of _ j])
    then show "a \<in> set (permutations2 ?ns)" by simp
  qed
  then show ?thesis
    by (auto simp: elimination_constraint_def Let_def)
qed

text \<open>
  C3. Every generated elimination constraint has this form: it sums the variables of
  every arc of the graph whose origin and destination are both nodes of the subtour (not
  only the subtour's own arcs), each once when the subtour visits no node twice, and
  bounds the sum by the subtour's length minus one. The loop body of the iterative
  variants and the callback of the second Gurobi variant register no other constraint,
  and the callback of the first Gurobi variant registers none at all.
\<close>

theorem elimination_constraint_form:
  "set (lhs (elimination_constraint (arc_list (create_arcs (nodes R C H))) tour)) =
     {a \<in> set (arc_list (create_arcs (nodes R C H))).
        fst a \<in> fst ` set tour \<and> snd a \<in> fst ` set tour} \<and>
   (distinct (map fst tour) \<longrightarrow>
      distinct (lhs (elimination_constraint (arc_list (create_arcs (nodes R C H))) tour))) \<and>
   sense (elimination_constraint (arc_list (create_arcs (nodes R C H))) tour) = LE \<and>
   rhs (elimination_constraint (arc_list (create_arcs (nodes R C H))) tour) =
     int (length tour) - 1 \<and>
   (\<forall>c. subtour_constraint n (arc_list (create_arcs (nodes R C H))) tour = Some c \<longrightarrow>
      c = elimination_constraint (arc_list (create_arcs (nodes R C H))) tour) \<and>
   (\<forall>s'. iteration solve n (arc_list (create_arcs (nodes R C H))) s = Some (Inr s') \<longrightarrow>
      (\<exists>t. subtour (arc_list (create_arcs (nodes R C H))) (solve (registered s)) = Some (Inr t) \<and>
         (registered s' = registered s \<or>
          registered s' =
            registered s @ [elimination_constraint (arc_list (create_arcs (nodes R C H))) t]))) \<and>
   subtourelim (length (nodes R C H)) (arc_list (create_arcs (nodes R C H))) vals = Some (Inr None)"
proof (intro conjI impI allI)
  show "subtourelim (length (nodes R C H)) (arc_list (create_arcs (nodes R C H))) vals =
      Some (Inr None)"
    by (rule subtourelim_registers_nothing) (simp add: nodes_def)
  show "set (lhs (elimination_constraint (arc_list (create_arcs (nodes R C H))) tour)) =
     {a \<in> set (arc_list (create_arcs (nodes R C H))).
        fst a \<in> fst ` set tour \<and> snd a \<in> fst ` set tour}"
    unfolding arc_list_create_arcs by (rule set_lhs_elimination_constraint)
  show "sense (elimination_constraint (arc_list (create_arcs (nodes R C H))) tour) = LE"
    by (simp add: elimination_constraint_def Let_def)
  show "rhs (elimination_constraint (arc_list (create_arcs (nodes R C H))) tour) =
     int (length tour) - 1"
    by (simp add: elimination_constraint_def Let_def)
next
  assume "distinct (map fst tour)"
  then show "distinct (lhs (elimination_constraint (arc_list (create_arcs (nodes R C H))) tour))"
    by (simp add: elimination_constraint_def Let_def distinct_permutations2)
next
  fix c assume "subtour_constraint n (arc_list (create_arcs (nodes R C H))) tour = Some c"
  then show "c = elimination_constraint (arc_list (create_arcs (nodes R C H))) tour"
    by (simp add: subtour_constraint_def split: if_splits)
next
  fix s' assume "iteration solve n (arc_list (create_arcs (nodes R C H))) s = Some (Inr s')"
  then show "\<exists>t. subtour (arc_list (create_arcs (nodes R C H))) (solve (registered s)) = Some (Inr t) \<and>
         (registered s' = registered s \<or>
          registered s' =
            registered s @ [elimination_constraint (arc_list (create_arcs (nodes R C H))) t])"
    by (auto simp: iteration_def Let_def split: option.splits sum.splits if_splits)
qed

text \<open>
  On the 2 x 2 grid, for the subtour around the four cells the constraint sums the eight
  arcs between them, the four of the subtour and the four opposite ones, and bounds the
  sum by 3.
\<close>

theorem elimination_constraint_form_witness:
  "lhs (elimination_constraint (arc_list (create_arcs (nodes 2 2 [])))
      [(\<lparr>row = 1, col = 1\<rparr>, \<lparr>row = 1, col = 2\<rparr>), (\<lparr>row = 1, col = 2\<rparr>, \<lparr>row = 2, col = 2\<rparr>),
       (\<lparr>row = 2, col = 2\<rparr>, \<lparr>row = 2, col = 1\<rparr>), (\<lparr>row = 2, col = 1\<rparr>, \<lparr>row = 1, col = 1\<rparr>)]) =
     [(\<lparr>row = 1, col = 1\<rparr>, \<lparr>row = 1, col = 2\<rparr>), (\<lparr>row = 1, col = 1\<rparr>, \<lparr>row = 2, col = 1\<rparr>),
      (\<lparr>row = 1, col = 2\<rparr>, \<lparr>row = 1, col = 1\<rparr>), (\<lparr>row = 1, col = 2\<rparr>, \<lparr>row = 2, col = 2\<rparr>),
      (\<lparr>row = 2, col = 2\<rparr>, \<lparr>row = 1, col = 2\<rparr>), (\<lparr>row = 2, col = 2\<rparr>, \<lparr>row = 2, col = 1\<rparr>),
      (\<lparr>row = 2, col = 1\<rparr>, \<lparr>row = 1, col = 1\<rparr>), (\<lparr>row = 2, col = 1\<rparr>, \<lparr>row = 2, col = 2\<rparr>)] \<and>
   distinct (lhs (elimination_constraint (arc_list (create_arcs (nodes 2 2 [])))
      [(\<lparr>row = 1, col = 1\<rparr>, \<lparr>row = 1, col = 2\<rparr>), (\<lparr>row = 1, col = 2\<rparr>, \<lparr>row = 2, col = 2\<rparr>),
       (\<lparr>row = 2, col = 2\<rparr>, \<lparr>row = 2, col = 1\<rparr>), (\<lparr>row = 2, col = 1\<rparr>, \<lparr>row = 1, col = 1\<rparr>)])) \<and>
   rhs (elimination_constraint (arc_list (create_arcs (nodes 2 2 [])))
      [(\<lparr>row = 1, col = 1\<rparr>, \<lparr>row = 1, col = 2\<rparr>), (\<lparr>row = 1, col = 2\<rparr>, \<lparr>row = 2, col = 2\<rparr>),
       (\<lparr>row = 2, col = 2\<rparr>, \<lparr>row = 2, col = 1\<rparr>), (\<lparr>row = 2, col = 1\<rparr>, \<lparr>row = 1, col = 1\<rparr>)]) = 3"
proof -
  let ?tour = "[(\<lparr>row = 1, col = 1\<rparr>, \<lparr>row = 1, col = 2\<rparr>), (\<lparr>row = 1, col = 2\<rparr>, \<lparr>row = 2, col = 2\<rparr>),
       (\<lparr>row = 2, col = 2\<rparr>, \<lparr>row = 2, col = 1\<rparr>), (\<lparr>row = 2, col = 1\<rparr>, \<lparr>row = 1, col = 1\<rparr>)]"
  have d: "distinct (map fst ?tour)" by simp
  have l: "lhs (elimination_constraint (arcs (nodes 2 2 [])) ?tour) =
     [(\<lparr>row = 1, col = 1\<rparr>, \<lparr>row = 1, col = 2\<rparr>), (\<lparr>row = 1, col = 1\<rparr>, \<lparr>row = 2, col = 1\<rparr>),
      (\<lparr>row = 1, col = 2\<rparr>, \<lparr>row = 1, col = 1\<rparr>), (\<lparr>row = 1, col = 2\<rparr>, \<lparr>row = 2, col = 2\<rparr>),
      (\<lparr>row = 2, col = 2\<rparr>, \<lparr>row = 1, col = 2\<rparr>), (\<lparr>row = 2, col = 2\<rparr>, \<lparr>row = 2, col = 1\<rparr>),
      (\<lparr>row = 2, col = 1\<rparr>, \<lparr>row = 1, col = 1\<rparr>), (\<lparr>row = 2, col = 1\<rparr>, \<lparr>row = 2, col = 2\<rparr>)]"
    by code_simp
  from elimination_constraint_form[of 2 2 "[]" ?tour] d l show ?thesis
    by (simp add: arc_list_create_arcs)
qed

subsection \<open>The elimination loop\<close>








end
